theory Spec2Isabelle
  imports
    Complex_Main
    "HOL-Library.Multiset"
    "HOL-Library.Log_Nat"
    "HOL-Library.Char_ord"
    "HOL-Library.List_Lexorder"
begin

section \<open>Run-time failures of the Go code\<close>

text \<open>
  The three programs never return an error from the functions embedded here, but Go
  panics on a write into a nil map, on an index outside a slice and on
  \<^verbatim>\<open>make\<close> with a negative length. Each of these is a value of
  \<open>go_panic\<close>; a function that can panic returns \<open>go_panic + 'a\<close>.
  \<open>NotFinite\<close> is not a panic: it marks a \<^verbatim>\<open>float64\<close> division by zero,
  whose result (an infinity or NaN) is not one of the finite values modelled below.
\<close>

datatype go_panic = NilMapWrite | IndexOutOfRange | MakeSliceLen | NotFinite

section \<open>Group ranking and Pareto dominance (SEM10/tpr-4/main.go)\<close>

text \<open>
  \<^verbatim>\<open>ParetoSystem\<close> with its four fields. A Go map is a partial function;
  \<^verbatim>\<open>int\<close> ranks are only ever compared, so they are unbounded integers here.
  The two outer maps are the ones that \<^verbatim>\<open>newParetoSystem\<close> makes, never nil.
\<close>

record ParetoSystem =
  alts :: "string list"
  experts :: "string list"
  rankings :: "string \<rightharpoonup> (string \<rightharpoonup> int)"
  dominance :: "string \<rightharpoonup> (string \<rightharpoonup> bool)"

text \<open>
  \<^verbatim>\<open>p.rankings[e][a]\<close>: reading a missing key of a Go map, or any key of a nil
  map, gives the zero value.
\<close>

definition rank_of :: "ParetoSystem \<Rightarrow> string \<Rightarrow> string \<Rightarrow> int" where
  "rank_of p e a =
     (case rankings p e of
        None \<Rightarrow> 0
      | Some m \<Rightarrow> (case m a of None \<Rightarrow> 0 | Some r \<Rightarrow> r))"

text \<open>\<^verbatim>\<open>p.dominance[a][b]\<close> as a read: a missing entry is \<open>false\<close>.\<close>

definition dom_lookup :: "(string \<rightharpoonup> (string \<rightharpoonup> bool)) \<Rightarrow> string \<Rightarrow> string \<Rightarrow> bool" where
  "dom_lookup d a b =
     (case d a of
        None \<Rightarrow> False
      | Some m \<Rightarrow> (case m b of None \<Rightarrow> False | Some v \<Rightarrow> v))"

text \<open>
  \<^verbatim>\<open>p.dominance[a1][a2] = true\<close>: the inner map is shared, so the write shows
  through the outer map; it panics when the inner map is nil.
\<close>

definition dom_set :: "(string \<rightharpoonup> (string \<rightharpoonup> bool)) \<Rightarrow> string \<Rightarrow> string
    \<Rightarrow> go_panic + (string \<rightharpoonup> (string \<rightharpoonup> bool))" where
  "dom_set d a1 a2 =
     (case d a1 of
        None \<Rightarrow> Inl NilMapWrite
      | Some m \<Rightarrow> Inr (d(a1 \<mapsto> m(a2 \<mapsto> True))))"

text \<open>The first loop of \<^verbatim>\<open>BuildDominance\<close>: a fresh inner map for every alternative.\<close>

fun init_loop :: "string list \<Rightarrow> (string \<rightharpoonup> (string \<rightharpoonup> bool)) \<Rightarrow> (string \<rightharpoonup> (string \<rightharpoonup> bool))" where
  "init_loop [] d = d"
| "init_loop (a # as) d = init_loop as (d(a \<mapsto> Map.empty))"

text \<open>
  The loop over the experts for one ordered pair. The state is
  \<open>(better, notWorse)\<close>; the \<^verbatim>\<open>break\<close> leaves the loop with
  \<open>notWorse = false\<close> and whatever \<open>better\<close> was.
\<close>

fun expert_loop :: "ParetoSystem \<Rightarrow> string \<Rightarrow> string \<Rightarrow> string list \<Rightarrow> bool \<times> bool \<Rightarrow> bool \<times> bool" where
  "expert_loop p a1 a2 [] (better, notWorse) = (better, notWorse)"
| "expert_loop p a1 a2 (e # es) (better, notWorse) =
     (let r1 = rank_of p e a1; r2 = rank_of p e a2 in
      if r1 > r2 then (better, False)
      else if r1 < r2 then expert_loop p a1 a2 es (True, notWorse)
      else expert_loop p a1 a2 es (better, notWorse))"

text \<open>The test \<^verbatim>\<open>notWorse && better\<close> after the loop over the experts.\<close>

definition pair_dominates :: "ParetoSystem \<Rightarrow> string \<Rightarrow> string \<Rightarrow> bool" where
  "pair_dominates p a1 a2 =
     (case expert_loop p a1 a2 (experts p) (False, True) of
        (better, notWorse) \<Rightarrow> notWorse \<and> better)"

text \<open>The loop over \<open>a2\<close> for a fixed \<open>a1\<close>, threading the dominance map.\<close>

fun inner_loop :: "ParetoSystem \<Rightarrow> string \<Rightarrow> string list \<Rightarrow> (string \<rightharpoonup> (string \<rightharpoonup> bool))
    \<Rightarrow> go_panic + (string \<rightharpoonup> (string \<rightharpoonup> bool))" where
  "inner_loop p a1 [] d = Inr d"
| "inner_loop p a1 (a2 # rest) d =
     (if a1 = a2 then inner_loop p a1 rest d
      else if pair_dominates p a1 a2 then
        (case dom_set d a1 a2 of
           Inl err \<Rightarrow> Inl err
         | Inr d' \<Rightarrow> inner_loop p a1 rest d')
      else inner_loop p a1 rest d)"

fun outer_loop :: "ParetoSystem \<Rightarrow> string list \<Rightarrow> (string \<rightharpoonup> (string \<rightharpoonup> bool))
    \<Rightarrow> go_panic + (string \<rightharpoonup> (string \<rightharpoonup> bool))" where
  "outer_loop p [] d = Inr d"
| "outer_loop p (a1 # rest) d =
     (case inner_loop p a1 (alts p) d of
        Inl err \<Rightarrow> Inl err
      | Inr d' \<Rightarrow> outer_loop p rest d')"

definition BuildDominance :: "ParetoSystem \<Rightarrow> go_panic + ParetoSystem" where
  "BuildDominance p =
     (case outer_loop p (alts p) (init_loop (alts p) (dominance p)) of
        Inl err \<Rightarrow> Inl err
      | Inr d \<Rightarrow> Inr (p\<lparr>dominance := d\<rparr>))"

text \<open>
  \<^verbatim>\<open>ParetoSet\<close>. The inner loop stops at the first \<open>b\<close> that dominates
  \<open>a\<close>; the outer loop appends the alternatives that were not dominated.
\<close>

fun dominated_loop :: "ParetoSystem \<Rightarrow> string \<Rightarrow> string list \<Rightarrow> bool" where
  "dominated_loop p a [] = False"
| "dominated_loop p a (b # bs) =
     (if dom_lookup (dominance p) b a then True else dominated_loop p a bs)"

fun pareto_loop :: "ParetoSystem \<Rightarrow> string list \<Rightarrow> string list \<Rightarrow> string list" where
  "pareto_loop p [] out = out"
| "pareto_loop p (a # as) out =
     (if \<not> dominated_loop p a (alts p) then pareto_loop p as (out @ [a])
      else pareto_loop p as out)"

text \<open>
  \<^verbatim>\<open>sort.Strings\<close> of the Go library puts a slice of strings in increasing
  order; Go compares strings byte by byte, a proper prefix being smaller. That order is
  linear, so the increasing arrangement of a slice is unique and \<open>sort\<close> computes it.
\<close>

definition sort_Strings :: "string list \<Rightarrow> string list" where
  "sort_Strings xs = sort xs"

definition ParetoSet :: "ParetoSystem \<Rightarrow> string list" where
  "ParetoSet p = sort_Strings (pareto_loop p (alts p) [])"

section \<open>float64 arithmetic\<close>

text \<open>
  A finite \<^verbatim>\<open>float64\<close> is modelled by the real number it denotes, and every
  arithmetic operation of Go by the exact operation followed by \<open>fl\<close>, the IEEE 754
  rounding to the nearest binary64 value, ties to even: 53 significant bits, the
  exponent of the last bit never below \<open>-1074\<close> (subnormal numbers). The exponent is
  not bounded above: utilities lie in \<open>[1, maxScore]\<close>, and no sum, difference or
  product formed from them by these programs comes near \<open>2^1024\<close>. Both zeros are the
  real \<open>0\<close>; Go's comparisons do not tell them apart.
\<close>

definition pow2 :: "int \<Rightarrow> real" where
  "pow2 e = (if 0 \<le> e then 2 ^ nat e else 1 / 2 ^ nat (- e))"

text \<open>
  \<open>ilog2 x\<close> is \<open>\<lfloor>log\<^sub>2 x\<rfloor>\<close> for \<open>x > 0\<close>, computed on integers: \<open>bitlen n\<close>
  is the number of binary digits of \<open>n\<close>.
\<close>

definition ilog2 :: "real \<Rightarrow> int" where
  "ilog2 x =
     (if 1 \<le> x then bitlen \<lfloor>x\<rfloor> - 1
      else - bitlen (\<lceil>1 / x\<rceil> - 1))"

definition round_even :: "real \<Rightarrow> int" where
  "round_even y =
     (let f = \<lfloor>y\<rfloor>; d = y - of_int f in
      if d < 1 / 2 then f
      else if 1 / 2 < d then f + 1
      else if even f then f else f + 1)"

definition fl :: "real \<Rightarrow> real" where
  "fl x =
     (if x = 0 then 0
      else let e = max (ilog2 \<bar>x\<bar> - 52) (- 1074)
           in of_int (round_even (x / pow2 e)) * pow2 e)"

text \<open>The reals that are \<^verbatim>\<open>float64\<close> values: the fixed points of the rounding.\<close>

definition is_float64 :: "real \<Rightarrow> bool" where
  "is_float64 x \<longleftrightarrow> fl x = x"

definition fadd :: "real \<Rightarrow> real \<Rightarrow> real" where
  "fadd x y = fl (x + y)"

definition fsub :: "real \<Rightarrow> real \<Rightarrow> real" where
  "fsub x y = fl (x - y)"

definition fmul :: "real \<Rightarrow> real \<Rightarrow> real" where
  "fmul x y = fl (x * y)"

definition fdiv :: "real \<Rightarrow> real \<Rightarrow> go_panic + real" where
  "fdiv x y = (if y = 0 then Inl NotFinite else Inr (fl (x / y)))"

text \<open>The conversion \<^verbatim>\<open>float64(n)\<close> of an \<^verbatim>\<open>int\<close>.\<close>

definition float64_of_int :: "int \<Rightarrow> real" where
  "float64_of_int n = fl (of_int n)"

section \<open>Choice under uncertainty (SEM10/tpr-3/main.go and the Wald, MaxiMax, Hurwicz program)\<close>

text \<open>
  \<^verbatim>\<open>UncertainDecisionSystem\<close> is declared with the same four fields in both
  programs.
\<close>

record UncertainDecisionSystem =
  alternatives :: "string list"
  statesCount :: int
  maxScore :: int
  outcomes :: "string \<rightharpoonup> real list"

text \<open>\<^verbatim>\<open>u.outcomes[alt]\<close>: a missing key reads as the nil slice.\<close>

definition outcomes_of :: "UncertainDecisionSystem \<Rightarrow> string \<Rightarrow> real list" where
  "outcomes_of u alt = (case outcomes u alt of None \<Rightarrow> [] | Some vs \<Rightarrow> vs)"

text \<open>\<^verbatim>\<open>xs[j]\<close> on a slice panics outside \<open>0 .. len(xs) - 1\<close>.\<close>

definition index :: "'a list \<Rightarrow> nat \<Rightarrow> go_panic + 'a" where
  "index xs j = (if j < length xs then Inr (xs ! j) else Inl IndexOutOfRange)"

subsection \<open>CalculateSavage\<close>

text \<open>The loop over the alternatives for one state \<open>j\<close>; \<open>maxVal\<close> starts at \<open>0.0\<close>.\<close>

fun max_loop :: "UncertainDecisionSystem \<Rightarrow> nat \<Rightarrow> string list \<Rightarrow> real \<Rightarrow> go_panic + real" where
  "max_loop u j [] maxVal = Inr maxVal"
| "max_loop u j (alt # rest) maxVal =
     (case index (outcomes_of u alt) j of
        Inl err \<Rightarrow> Inl err
      | Inr val \<Rightarrow> max_loop u j rest (if val > maxVal then val else maxVal))"

text \<open>The loop over the states, writing \<^verbatim>\<open>maxOutcomes[j]\<close>.\<close>

fun states_loop :: "UncertainDecisionSystem \<Rightarrow> nat list \<Rightarrow> real list \<Rightarrow> go_panic + real list" where
  "states_loop u [] maxOutcomes = Inr maxOutcomes"
| "states_loop u (j # js) maxOutcomes =
     (case max_loop u j (alternatives u) 0 of
        Inl err \<Rightarrow> Inl err
      | Inr maxVal \<Rightarrow> states_loop u js (maxOutcomes[j := maxVal]))"

text \<open>
  The loop \<^verbatim>\<open>for j, outcome := range u.outcomes[alt]\<close>; \<open>maxRegret\<close> starts
  at \<open>0.0\<close> and \<^verbatim>\<open>maxOutcomes[j]\<close> panics when the row is longer than
  \<open>statesCount\<close>.
\<close>

fun regret_loop :: "real list \<Rightarrow> nat \<Rightarrow> real list \<Rightarrow> real \<Rightarrow> go_panic + real" where
  "regret_loop maxOutcomes j [] maxRegret = Inr maxRegret"
| "regret_loop maxOutcomes j (outcome # rest) maxRegret =
     (case index maxOutcomes j of
        Inl err \<Rightarrow> Inl err
      | Inr m \<Rightarrow>
          (let regret = fsub m outcome in
           regret_loop maxOutcomes (Suc j) rest (if regret > maxRegret then regret else maxRegret)))"

fun savage_loop :: "UncertainDecisionSystem \<Rightarrow> real list \<Rightarrow> string list \<Rightarrow> (string \<rightharpoonup> real)
    \<Rightarrow> go_panic + (string \<rightharpoonup> real)" where
  "savage_loop u maxOutcomes [] savage = Inr savage"
| "savage_loop u maxOutcomes (alt # rest) savage =
     (case regret_loop maxOutcomes 0 (outcomes_of u alt) 0 of
        Inl err \<Rightarrow> Inl err
      | Inr maxRegret \<Rightarrow> savage_loop u maxOutcomes rest (savage(alt \<mapsto> maxRegret)))"

definition CalculateSavage :: "UncertainDecisionSystem \<Rightarrow> go_panic + (string \<rightharpoonup> real)" where
  "CalculateSavage u =
     (if statesCount u < 0 then Inl MakeSliceLen
      else
        (case states_loop u [0 ..< nat (statesCount u)] (replicate (nat (statesCount u)) 0) of
           Inl err \<Rightarrow> Inl err
         | Inr maxOutcomes \<Rightarrow> savage_loop u maxOutcomes (alternatives u) Map.empty))"

subsection \<open>CalculateLaplace\<close>

fun sum_loop :: "real list \<Rightarrow> real \<Rightarrow> real" where
  "sum_loop [] acc = acc"
| "sum_loop (outcome # rest) acc = sum_loop rest (fadd acc outcome)"

fun laplace_loop :: "UncertainDecisionSystem \<Rightarrow> string list \<Rightarrow> (string \<rightharpoonup> real)
    \<Rightarrow> go_panic + (string \<rightharpoonup> real)" where
  "laplace_loop u [] laplace = Inr laplace"
| "laplace_loop u (alt # rest) laplace =
     (case fdiv (sum_loop (outcomes_of u alt) 0) (float64_of_int (statesCount u)) of
        Inl err \<Rightarrow> Inl err
      | Inr avg \<Rightarrow> laplace_loop u rest (laplace(alt \<mapsto> avg)))"

definition CalculateLaplace :: "UncertainDecisionSystem \<Rightarrow> go_panic + (string \<rightharpoonup> real)" where
  "CalculateLaplace u = laplace_loop u (alternatives u) Map.empty"

subsection \<open>Sorting and ranking\<close>

text \<open>
  \<^verbatim>\<open>sort.Slice\<close> and \<^verbatim>\<open>sort.Sort\<close> belong to the Go library. Their
  documentation promises a rearrangement of the slice in which no element is
  \<open>less\<close> than an element before it, and no stability. A library sort is therefore
  a parameter \<open>srt\<close> of the functions that call it, and \<open>sorts_by\<close> is what the
  library promises for one comparison \<open>lessf\<close>.
\<close>

type_synonym 'a sorter = "('a \<Rightarrow> 'a \<Rightarrow> bool) \<Rightarrow> 'a list \<Rightarrow> 'a list"

definition sorts_by :: "'a sorter \<Rightarrow> ('a \<Rightarrow> 'a \<Rightarrow> bool) \<Rightarrow> bool" where
  "sorts_by srt lessf \<longleftrightarrow>
     (\<forall>xs. mset (srt lessf xs) = mset xs \<and> sorted_wrt (\<lambda>a b. \<not> lessf b a) (srt lessf xs))"

text \<open>
  For slices of at most 12 elements both library sorts run their insertion sort
  (\<^verbatim>\<open>insertionSort_func\<close> and \<^verbatim>\<open>insertionSort\<close> of package
  \<^verbatim>\<open>sort\<close>): element \<open>i\<close> is swapped towards the front while it is
  \<open>less\<close> than its left neighbour. \<open>sift\<close> is that inner loop on the reversed
  prefix, \<open>insertionSort\<close> the whole routine. It serves as the instance of
  \<open>srt\<close> on which the theorems are exercised and as the library's behaviour on
  small slices.
\<close>

fun sift :: "('a \<Rightarrow> 'a \<Rightarrow> bool) \<Rightarrow> 'a \<Rightarrow> 'a list \<Rightarrow> 'a list" where
  "sift lessf x [] = [x]"
| "sift lessf x (y # ys) = (if lessf x y then y # sift lessf x ys else x # y # ys)"

fun insertion_loop :: "('a \<Rightarrow> 'a \<Rightarrow> bool) \<Rightarrow> 'a list \<Rightarrow> 'a list \<Rightarrow> 'a list" where
  "insertion_loop lessf [] prefix = rev prefix"
| "insertion_loop lessf (x # xs) prefix = insertion_loop lessf xs (sift lessf x prefix)"

definition insertionSort :: "'a sorter" where
  "insertionSort lessf xs = insertion_loop lessf xs []"

record AltValue =
  alt :: string
  value' :: real

text \<open>
  \<^verbatim>\<open>sortAltValues\<close>. Go visits the keys of a map in an order that it chooses
  anew at every \<^verbatim>\<open>range\<close>; \<open>iter\<close> is the order chosen, a list of the keys of
  \<open>data\<close> without repetition.
\<close>

definition iteration_of :: "string list \<Rightarrow> (string \<rightharpoonup> real) \<Rightarrow> bool" where
  "iteration_of iter data \<longleftrightarrow> distinct iter \<and> set iter = dom data"

fun append_loop :: "(string \<rightharpoonup> real) \<Rightarrow> string list \<Rightarrow> AltValue list \<Rightarrow> AltValue list" where
  "append_loop data [] arr = arr"
| "append_loop data (k # ks) arr =
     (case data k of
        None \<Rightarrow> append_loop data ks arr
      | Some v \<Rightarrow> append_loop data ks (arr @ [\<lparr>alt = k, value' = v\<rparr>]))"

definition sortAltValues :: "AltValue sorter \<Rightarrow> string list \<Rightarrow> (string \<rightharpoonup> real) \<Rightarrow> bool \<Rightarrow> AltValue list" where
  "sortAltValues srt iter data ascending =
     (let arr = append_loop data iter [] in
      if ascending then srt (\<lambda>a b. value' a < value' b) arr
      else srt (\<lambda>a b. value' a > value' b) arr)"

text \<open>
  \<^verbatim>\<open>PrintRanking\<close> prints one row per element: the position \<open>i + 1\<close>, the
  alternative and its score. The rows are the result here.
\<close>

fun ranking_rows :: "nat \<Rightarrow> AltValue list \<Rightarrow> (int \<times> string \<times> real) list" where
  "ranking_rows i [] = []"
| "ranking_rows i (item # rest) = (int i + 1, alt item, value' item) # ranking_rows (Suc i) rest"

definition PrintRanking :: "AltValue list \<Rightarrow> (int \<times> string \<times> real) list" where
  "PrintRanking altValues = ranking_rows 0 altValues"

subsection \<open>CalculateCriteria and PrintRankings (Wald, MaxiMax, Hurwicz)\<close>

record Alternative =
  name :: string
  wald :: real
  maxmax :: real
  hurwicz :: real

text \<open>The zero value of \<^verbatim>\<open>Alternative\<close>, which \<^verbatim>\<open>make\<close> fills the slice with.\<close>

definition zero_Alternative :: Alternative where
  "zero_Alternative = \<lparr>name = [], wald = 0, maxmax = 0, hurwicz = 0\<rparr>"

fun minmax_loop :: "real list \<Rightarrow> real \<times> real \<Rightarrow> real \<times> real" where
  "minmax_loop [] (minVal, maxVal) = (minVal, maxVal)"
| "minmax_loop (v # vs) (minVal, maxVal) =
     minmax_loop vs (if v < minVal then v else minVal, if v > maxVal then v else maxVal)"

text \<open>
  The loop \<^verbatim>\<open>for i, alt := range u.alternatives\<close>. \<open>alpha\<close> is the coefficient
  that \<^verbatim>\<open>readValidatedFloat\<close> returned and \<open>res\<close> the slice \<^verbatim>\<open>alts\<close>;
  an alternative without outcomes is skipped and keeps the zero value.
\<close>

fun criteria_loop :: "UncertainDecisionSystem \<Rightarrow> real \<Rightarrow> nat \<Rightarrow> string list \<Rightarrow> Alternative list
    \<Rightarrow> Alternative list" where
  "criteria_loop u alpha i [] res = res"
| "criteria_loop u alpha i (a # rest) res =
     (case outcomes_of u a of
        [] \<Rightarrow> criteria_loop u alpha (Suc i) rest res
      | d0 # ds \<Rightarrow>
          (case minmax_loop (d0 # ds) (d0, d0) of
             (minVal, maxVal) \<Rightarrow>
               (let h = fadd (fmul alpha maxVal) (fmul (fsub 1 alpha) minVal) in
                criteria_loop u alpha (Suc i) rest
                  (res[i := \<lparr>name = a, wald = minVal, maxmax = maxVal, hurwicz = h\<rparr>]))))"

definition CalculateCriteria :: "UncertainDecisionSystem \<Rightarrow> real \<Rightarrow> Alternative list" where
  "CalculateCriteria u alpha =
     criteria_loop u alpha 0 (alternatives u)
       (replicate (length (alternatives u)) zero_Alternative)"

text \<open>
  \<^verbatim>\<open>ByCriterion.Less\<close>: a larger value of the criterion comes first.
  \<^verbatim>\<open>sort.Sort\<close> reaches the slice through \<^verbatim>\<open>Len\<close>, \<^verbatim>\<open>Swap\<close> and
  \<^verbatim>\<open>Less\<close>; \<^verbatim>\<open>Swap\<close> exchanges two elements of the slice, so the call
  is a sort of the slice by \<open>Less\<close>.
\<close>

definition Less :: "(Alternative \<Rightarrow> real) \<Rightarrow> Alternative \<Rightarrow> Alternative \<Rightarrow> bool" where
  "Less valueFunc a b \<longleftrightarrow> valueFunc a > valueFunc b"

fun criterion_rows :: "(Alternative \<Rightarrow> real) \<Rightarrow> nat \<Rightarrow> Alternative list \<Rightarrow> (int \<times> string \<times> real) list" where
  "criterion_rows valueFunc i [] = []"
| "criterion_rows valueFunc i (a # rest) =
     (int i + 1, name a, valueFunc a) # criterion_rows valueFunc (Suc i) rest"

text \<open>
  \<^verbatim>\<open>PrintRankings\<close> sorts the slice it is given in place and prints its rows.
  The result is the slice as the call leaves it, which the caller still holds, and the
  rows printed.
\<close>

definition PrintRankings :: "Alternative sorter \<Rightarrow> Alternative list \<Rightarrow> (Alternative \<Rightarrow> real)
    \<Rightarrow> Alternative list \<times> (int \<times> string \<times> real) list" where
  "PrintRankings srt slice valueFunc =
     (let sorted_slice = srt (Less valueFunc) slice
      in (sorted_slice, criterion_rows valueFunc 0 sorted_slice))"

text \<open>
  The three rankings of \<^verbatim>\<open>main\<close>, each call receiving the slice that the call
  before it has sorted.
\<close>

definition main_rankings :: "Alternative sorter \<Rightarrow> UncertainDecisionSystem \<Rightarrow> real
    \<Rightarrow> (int \<times> string \<times> real) list \<times> (int \<times> string \<times> real) list \<times> (int \<times> string \<times> real) list" where
  "main_rankings srt u alpha =
     (let alts0 = CalculateCriteria u alpha;
          (alts1, rows_wald) = PrintRankings srt alts0 wald;
          (alts2, rows_maxmax) = PrintRankings srt alts1 maxmax;
          (alts3, rows_hurwicz) = PrintRankings srt alts2 hurwicz
      in (rows_wald, rows_maxmax, rows_hurwicz))"

section \<open>Specification-level functions and example inputs\<close>

text \<open>
  The functions of this section are not translations of Go code. They state, in the
  words of the specification, what the functions above are proved to compute, and they fix
  the concrete tables on which the theorems are exercised.
\<close>

text \<open>The sum of the ranks that the experts give to one alternative.\<close>

definition rank_sum :: "ParetoSystem \<Rightarrow> string \<Rightarrow> int" where
  "rank_sum p a = sum_list (map (\<lambda>e. rank_of p e a) (experts p))"

text \<open>
  A utility matrix is complete when every alternative has exactly \<open>statesCount\<close>
  outcomes.
\<close>

definition complete_matrix :: "UncertainDecisionSystem \<Rightarrow> bool" where
  "complete_matrix u \<longleftrightarrow>
     0 \<le> statesCount u \<and>
     (\<forall>a\<in>set (alternatives u). length (outcomes_of u a) = nat (statesCount u))"

text \<open>
  The Savage criterion as the specification words it: \<open>M\<^sub>j\<close> is the largest utility in
  state \<open>j\<close>, the running maximum starting from \<open>0\<close>; the regret is
  \<open>M\<^sub>j - U(a, j)\<close>; the score of \<open>a\<close> is its largest regret, again starting
  from \<open>0\<close>.
\<close>

definition spec_M :: "UncertainDecisionSystem \<Rightarrow> nat \<Rightarrow> real" where
  "spec_M u j = Max (insert 0 ((\<lambda>b. outcomes_of u b ! j) ` set (alternatives u)))"

definition spec_Savage :: "UncertainDecisionSystem \<Rightarrow> string \<Rightarrow> real" where
  "spec_Savage u a =
     Max (insert 0 ((\<lambda>j. fsub (spec_M u j) (outcomes_of u a ! j)) ` {..< nat (statesCount u)}))"

text \<open>
  The element of the result slice of \<^verbatim>\<open>CalculateCriteria\<close> for one alternative:
  Wald is the minimum, MaxiMax the maximum, Hurwicz their blend.
\<close>

definition criteria_of :: "UncertainDecisionSystem \<Rightarrow> real \<Rightarrow> string \<Rightarrow> Alternative" where
  "criteria_of u alpha a =
     (if outcomes_of u a = [] then zero_Alternative
      else \<lparr>name = a,
            wald = Min (set (outcomes_of u a)),
            maxmax = Max (set (outcomes_of u a)),
            hurwicz = fadd (fmul alpha (Max (set (outcomes_of u a))))
                        (fmul (fsub 1 alpha) (Min (set (outcomes_of u a))))\<rparr>)"

text \<open>The entries of a scores map, in the order in which the keys \<open>ks\<close> are visited.\<close>

definition entries :: "(string \<rightharpoonup> real) \<Rightarrow> string list \<Rightarrow> AltValue list" where
  "entries data ks =
     concat (map (\<lambda>k. case data k of None \<Rightarrow> [] | Some v \<Rightarrow> [\<lparr>alt = k, value' = v\<rparr>]) ks)"

text \<open>The score that a criterion gives to one alternative; none after a panic.\<close>

definition score_of :: "go_panic + (string \<rightharpoonup> real) \<Rightarrow> string \<Rightarrow> real option" where
  "score_of r a = (case r of Inl err \<Rightarrow> None | Inr m \<Rightarrow> m a)"

text \<open>
  The ranking scenario of the specification: three alternatives, two experts;
  \<open>scenario_dominance\<close> carries the dominance relation that belongs to it.
\<close>

definition scenario_ranks :: ParetoSystem where
  "scenario_ranks =
     \<lparr>alts = [''A'', ''B'', ''C''],
      experts = [''E1'', ''E2''],
      rankings = [''E1'' \<mapsto> [''A'' \<mapsto> 1, ''B'' \<mapsto> 2, ''C'' \<mapsto> 3],
                  ''E2'' \<mapsto> [''A'' \<mapsto> 1, ''B'' \<mapsto> 3, ''C'' \<mapsto> 2]],
      dominance = Map.empty\<rparr>"

definition scenario_dominance :: ParetoSystem where
  "scenario_dominance =
     scenario_ranks\<lparr>dominance :=
       [''A'' \<mapsto> [''B'' \<mapsto> True, ''C'' \<mapsto> True], ''B'' \<mapsto> Map.empty, ''C'' \<mapsto> Map.empty]\<rparr>"

text \<open>
  The utility scenario of the specification, \<open>A = [10, 2]\<close> and \<open>B = [6, 6]\<close>, with
  its Wald scores and its Savage scores as maps; the same table with a third
  alternative that is best in every state; a table in which MaxiMax ties and Wald does
  not; and a table with the constant utility \<open>1.4\<close> in three states, each entry being
  the \<^verbatim>\<open>float64\<close> that \<^verbatim>\<open>ParseFloat\<close> returns for that input.
\<close>

definition scenario_utilities :: UncertainDecisionSystem where
  "scenario_utilities =
     \<lparr>alternatives = [''A'', ''B''], statesCount = 2, maxScore = 10,
      outcomes = [''A'' \<mapsto> [10, 2], ''B'' \<mapsto> [6, 6]]\<rparr>"

definition wald_scores :: "string \<rightharpoonup> real" where
  "wald_scores = [''A'' \<mapsto> 2, ''B'' \<mapsto> 6]"

definition savage_scores :: "string \<rightharpoonup> real" where
  "savage_scores = [''A'' \<mapsto> 4, ''B'' \<mapsto> 4]"

definition best_everywhere :: UncertainDecisionSystem where
  "best_everywhere =
     \<lparr>alternatives = [''A'', ''B'', ''C''], statesCount = 2, maxScore = 10,
      outcomes = [''A'' \<mapsto> [10, 2], ''B'' \<mapsto> [6, 6], ''C'' \<mapsto> [10, 6]]\<rparr>"

definition ties_example :: UncertainDecisionSystem where
  "ties_example =
     \<lparr>alternatives = [''A'', ''B''], statesCount = 2, maxScore = 10,
      outcomes = [''A'' \<mapsto> [1, 5], ''B'' \<mapsto> [2, 5]]\<rparr>"

definition rounding_example :: UncertainDecisionSystem where
  "rounding_example =
     \<lparr>alternatives = [''A''], statesCount = 3, maxScore = 10,
      outcomes = [''A'' \<mapsto> [fl (14 / 10), fl (14 / 10), fl (14 / 10)]]\<rparr>"

section \<open>Properties\<close>

subsection \<open>The dominance relation\<close>

lemma expert_loop_char:
  "expert_loop p a1 a2 es (b, nw) = (b', nw') \<Longrightarrow>
     (nw' \<longleftrightarrow> nw \<and> (\<forall>e\<in>set es. rank_of p e a1 \<le> rank_of p e a2)) \<and>
     (nw' \<longrightarrow> (b' \<longleftrightarrow> b \<or> (\<exists>e\<in>set es. rank_of p e a1 < rank_of p e a2)))"
proof (induction es arbitrary: b nw)
  case Nil
  then show ?case by simp
next
  case (Cons e es)
  show ?case
  proof (cases "rank_of p e a1 > rank_of p e a2")
    case True
    with Cons.prems show ?thesis by auto
  next
    case False
    note nf = this
    show ?thesis
    proof (cases "rank_of p e a1 < rank_of p e a2")
      case True
      with nf Cons.prems have "expert_loop p a1 a2 es (True, nw) = (b', nw')" by simp
      from Cons.IH[OF this] True show ?thesis by auto
    next
      case False
      with nf Cons.prems have "expert_loop p a1 a2 es (b, nw) = (b', nw')" by simp
      from Cons.IH[OF this] False nf show ?thesis by auto
    qed
  qed
qed

lemma pair_dominates_iff:
  "pair_dominates p a1 a2 \<longleftrightarrow>
     (\<forall>e\<in>set (experts p). rank_of p e a1 \<le> rank_of p e a2) \<and>
     (\<exists>e\<in>set (experts p). rank_of p e a1 < rank_of p e a2)"
proof -
  obtain b' nw' where r: "expert_loop p a1 a2 (experts p) (False, True) = (b', nw')"
    by (cases "expert_loop p a1 a2 (experts p) (False, True)") auto
  from expert_loop_char[OF r] r show ?thesis
    by (auto simp: pair_dominates_def)
qed

lemma init_loop_char: "init_loop as d x = (if x \<in> set as then Some Map.empty else d x)"
  by (induction as arbitrary: d) auto

lemma dom_lookup_set:
  "d a1 = Some m \<Longrightarrow>
   dom_lookup (d(a1 \<mapsto> m(a2 \<mapsto> True))) x y \<longleftrightarrow> dom_lookup d x y \<or> (x = a1 \<and> y = a2)"
  by (auto simp: dom_lookup_def split: option.splits)

lemma inner_loop_char:
  "d a1 \<noteq> None \<Longrightarrow>
   \<exists>d'. inner_loop p a1 as d = Inr d' \<and> (\<forall>x. d' x = None \<longleftrightarrow> d x = None) \<and>
     (\<forall>x y. dom_lookup d' x y \<longleftrightarrow>
        dom_lookup d x y \<or> (x = a1 \<and> y \<in> set as \<and> y \<noteq> a1 \<and> pair_dominates p a1 y))"
proof (induction as arbitrary: d)
  case Nil
  then show ?case by simp
next
  case (Cons a2 rest)
  show ?case
  proof (cases "a1 \<noteq> a2 \<and> pair_dominates p a1 a2")
    case False
    with Cons.IH[of d] Cons.prems show ?thesis by auto
  next
    case True
    from Cons.prems obtain m where m: "d a1 = Some m" by auto
    let ?d1 = "d(a1 \<mapsto> m(a2 \<mapsto> True))"
    have s: "dom_set d a1 a2 = Inr ?d1" using m by (simp add: dom_set_def)
    have "?d1 a1 \<noteq> None" by simp
    with Cons.IH[of ?d1] obtain d' where
      d': "inner_loop p a1 rest ?d1 = Inr d'" "\<forall>x. d' x = None \<longleftrightarrow> ?d1 x = None"
      "\<forall>x y. dom_lookup d' x y \<longleftrightarrow>
        dom_lookup ?d1 x y \<or> (x = a1 \<and> y \<in> set rest \<and> y \<noteq> a1 \<and> pair_dominates p a1 y)"
      by blast
    have 1: "inner_loop p a1 (a2 # rest) d = Inr d'" using True s d'(1) by simp
    have 2: "\<forall>x. d' x = None \<longleftrightarrow> d x = None" using d'(2) m by auto
    have 3: "\<forall>x y. dom_lookup d' x y \<longleftrightarrow>
        dom_lookup d x y \<or> (x = a1 \<and> y \<in> set (a2 # rest) \<and> y \<noteq> a1 \<and> pair_dominates p a1 y)"
      using d'(3) True by (auto simp: dom_lookup_set[of d a1 m a2, OF m])
    from 1 2 3 show ?thesis by blast
  qed
qed

lemma outer_loop_char:
  "\<forall>a\<in>set as. d a \<noteq> None \<Longrightarrow>
   \<exists>d'. outer_loop p as d = Inr d' \<and> (\<forall>x. d' x = None \<longleftrightarrow> d x = None) \<and>
     (\<forall>x y. dom_lookup d' x y \<longleftrightarrow>
        dom_lookup d x y \<or> (x \<in> set as \<and> y \<in> set (alts p) \<and> y \<noteq> x \<and> pair_dominates p x y))"
proof (induction as arbitrary: d)
  case Nil
  then show ?case by simp
next
  case (Cons a1 rest)
  then have "d a1 \<noteq> None" by simp
  with inner_loop_char[of d a1 p "alts p"] obtain d1 where
    d1: "inner_loop p a1 (alts p) d = Inr d1" "\<forall>x. d1 x = None \<longleftrightarrow> d x = None"
      "\<forall>x y. dom_lookup d1 x y \<longleftrightarrow>
        dom_lookup d x y \<or> (x = a1 \<and> y \<in> set (alts p) \<and> y \<noteq> a1 \<and> pair_dominates p a1 y)"
    by blast
  have "\<forall>a\<in>set rest. d1 a \<noteq> None" using d1(2) Cons.prems by simp
  with Cons.IH[of d1] obtain d' where
    d': "outer_loop p rest d1 = Inr d'" "\<forall>x. d' x = None \<longleftrightarrow> d1 x = None"
      "\<forall>x y. dom_lookup d' x y \<longleftrightarrow>
        dom_lookup d1 x y \<or> (x \<in> set rest \<and> y \<in> set (alts p) \<and> y \<noteq> x \<and> pair_dominates p x y)"
    by blast
  have 1: "outer_loop p (a1 # rest) d = Inr d'" using d1(1) d'(1) by simp
  have 2: "\<forall>x. d' x = None \<longleftrightarrow> d x = None" using d1(2) d'(2) by simp
  have 3: "\<forall>x y. dom_lookup d' x y \<longleftrightarrow>
        dom_lookup d x y \<or> (x \<in> set (a1 # rest) \<and> y \<in> set (alts p) \<and> y \<noteq> x \<and> pair_dominates p x y)"
    using d1(3) d'(3) by auto
  from 1 2 3 show ?case by blast
qed

lemma BuildDominance_char:
  "\<exists>p'. BuildDominance p = Inr p' \<and> alts p' = alts p \<and> experts p' = experts p \<and>
        rankings p' = rankings p \<and>
        (\<forall>x\<in>set (alts p). \<forall>y. dom_lookup (dominance p') x y \<longleftrightarrow>
            y \<in> set (alts p) \<and> y \<noteq> x \<and> pair_dominates p x y)"
proof -
  let ?d0 = "init_loop (alts p) (dominance p)"
  have "\<forall>a\<in>set (alts p). ?d0 a \<noteq> None" by (simp add: init_loop_char)
  with outer_loop_char[of "alts p" ?d0 p] obtain d' where
    d': "outer_loop p (alts p) ?d0 = Inr d'"
      "\<forall>x y. dom_lookup d' x y \<longleftrightarrow>
        dom_lookup ?d0 x y \<or> (x \<in> set (alts p) \<and> y \<in> set (alts p) \<and> y \<noteq> x \<and> pair_dominates p x y)"
    by blast
  have z: "\<And>x y. x \<in> set (alts p) \<Longrightarrow> \<not> dom_lookup ?d0 x y"
    by (simp add: dom_lookup_def init_loop_char)
  have "BuildDominance p = Inr (p\<lparr>dominance := d'\<rparr>)" using d'(1) by (simp add: BuildDominance_def)
  moreover have "\<forall>x\<in>set (alts p). \<forall>y. dom_lookup d' x y \<longleftrightarrow>
            y \<in> set (alts p) \<and> y \<noteq> x \<and> pair_dominates p x y"
    using d'(2) z by auto
  ultimately show ?thesis by simp
qed

subsection \<open>The Pareto set\<close>

lemma dominated_loop_iff:
  "dominated_loop p a bs \<longleftrightarrow> (\<exists>b\<in>set bs. dom_lookup (dominance p) b a)"
  by (induction bs) auto

lemma pareto_loop_filter:
  "pareto_loop p as out = out @ filter (\<lambda>a. \<not> dominated_loop p a (alts p)) as"
  by (induction as arbitrary: out) auto

lemma ParetoSet_filter:
  "ParetoSet p = sort (filter (\<lambda>a. \<forall>b\<in>set (alts p). \<not> dom_lookup (dominance p) b a) (alts p))"
  by (simp add: ParetoSet_def sort_Strings_def pareto_loop_filter dominated_loop_iff)

lemma sort_mset_cong: "mset xs = mset ys \<Longrightarrow> sort xs = sort (ys :: 'a::linorder list)"
  by (rule properties_for_sort) simp_all

lemma sum_list_strict:
  "\<forall>e\<in>set es. g e \<le> (h e :: int) \<Longrightarrow> \<exists>e\<in>set es. g e < h e \<Longrightarrow>
   sum_list (map g es) < sum_list (map h es)"
proof (induction es)
  case Nil
  then show ?case by simp
next
  case (Cons e es)
  have le: "sum_list (map g es) \<le> sum_list (map h es)"
    using Cons.prems(1) by (intro sum_list_mono) simp
  show ?case
  proof (cases "g e < h e")
    case True
    with le show ?thesis by simp
  next
    case False
    with Cons.prems have "\<exists>e\<in>set es. g e < h e" "\<forall>e\<in>set es. g e \<le> h e" "g e \<le> h e" by auto
    with Cons.IH show ?thesis by simp
  qed
qed

lemma pair_dominates_rank_sum: "pair_dominates p b a \<Longrightarrow> rank_sum p b < rank_sum p a"
  unfolding rank_sum_def pair_dominates_iff by (rule sum_list_strict) auto

lemma pair_dominates_asym: "pair_dominates p a b \<Longrightarrow> \<not> pair_dominates p b a"
  using pair_dominates_rank_sum[of p a b] pair_dominates_rank_sum[of p b a] by auto

lemma pair_dominates_tie:
  "\<forall>e\<in>set (experts p). rank_of p e a = rank_of p e b \<Longrightarrow> \<not> pair_dominates p a b"
  by (simp add: pair_dominates_iff)

lemma pair_dominates_trans:
  assumes "pair_dominates p a b" and "pair_dominates p b c"
  shows "pair_dominates p a c"
proof -
  from assms have le: "\<forall>e\<in>set (experts p). rank_of p e a \<le> rank_of p e c"
    unfolding pair_dominates_iff by force
  from assms(1) obtain e where e: "e \<in> set (experts p)" "rank_of p e a < rank_of p e b"
    unfolding pair_dominates_iff by blast
  from assms(2) e(1) have "rank_of p e b \<le> rank_of p e c"
    unfolding pair_dominates_iff by blast
  with e have "\<exists>e\<in>set (experts p). rank_of p e a < rank_of p e c" by force
  with le show ?thesis unfolding pair_dominates_iff by blast
qed

lemma least_rank_sum: "as \<noteq> [] \<Longrightarrow> \<exists>a\<in>set as. \<forall>b\<in>set as. rank_sum p a \<le> rank_sum p b"
proof (induction as)
  case Nil
  then show ?case by simp
next
  case (Cons x xs)
  show ?case
  proof (cases "xs = []")
    case True
    then show ?thesis by simp
  next
    case False
    with Cons.IH obtain a where a: "a \<in> set xs" "\<forall>b\<in>set xs. rank_sum p a \<le> rank_sum p b" by blast
    show ?thesis
    proof (cases "rank_sum p x \<le> rank_sum p a")
      case True
      with a have "\<forall>b\<in>set (x # xs). rank_sum p x \<le> rank_sum p b" by force
      then show ?thesis by auto
    next
      case False
      with a have "\<forall>b\<in>set (x # xs). rank_sum p a \<le> rank_sum p b" by force
      with a(1) show ?thesis by auto
    qed
  qed
qed

text \<open>
  Claim C1. After \<^verbatim>\<open>BuildDominance\<close>, which never panics, for every ordered pair
  of distinct alternatives \<open>(a1, a2)\<close> the dominance relation holds exactly when
  every expert ranks \<open>a1\<close> with a number less than or equal to the rank of \<open>a2\<close>
  and at least one expert ranks \<open>a1\<close> with a strictly smaller number. A rank that
  was never supplied reads as \<open>0\<close>, so the statement needs no completeness
  hypothesis and covers every complete rank matrix.
\<close>
theorem BuildDominance_pairwise:
  "\<exists>p'. BuildDominance p = Inr p' \<and>
     (\<forall>a1\<in>set (alts p). \<forall>a2\<in>set (alts p). a1 \<noteq> a2 \<longrightarrow>
        (dom_lookup (dominance p') a1 a2 \<longleftrightarrow>
           (\<forall>e\<in>set (experts p). rank_of p e a1 \<le> rank_of p e a2) \<and>
           (\<exists>e\<in>set (experts p). rank_of p e a1 < rank_of p e a2)))"
proof -
  from BuildDominance_char[of p] obtain p' where
    p': "BuildDominance p = Inr p'"
    "\<forall>x\<in>set (alts p). \<forall>y. dom_lookup (dominance p') x y \<longleftrightarrow>
            y \<in> set (alts p) \<and> y \<noteq> x \<and> pair_dominates p x y"
    by blast
  from p'(2) have "\<forall>a1\<in>set (alts p). \<forall>a2\<in>set (alts p). a1 \<noteq> a2 \<longrightarrow>
        (dom_lookup (dominance p') a1 a2 \<longleftrightarrow>
           (\<forall>e\<in>set (experts p). rank_of p e a1 \<le> rank_of p e a2) \<and>
           (\<exists>e\<in>set (experts p). rank_of p e a1 < rank_of p e a2))"
    by (auto simp: pair_dominates_iff)
  with p'(1) show ?thesis by blast
qed

text \<open>
  Claim C6. After \<^verbatim>\<open>BuildDominance\<close>, for alternatives \<open>a\<close> and \<open>b\<close> the
  relation never holds in both directions, and when every expert gives \<open>a\<close> and
  \<open>b\<close> the same rank it holds in neither direction.
\<close>
theorem BuildDominance_antisymmetric:
  "\<exists>p'. BuildDominance p = Inr p' \<and>
     (\<forall>a\<in>set (alts p). \<forall>b\<in>set (alts p).
        \<not> (dom_lookup (dominance p') a b \<and> dom_lookup (dominance p') b a) \<and>
        ((\<forall>e\<in>set (experts p). rank_of p e a = rank_of p e b) \<longrightarrow>
           \<not> dom_lookup (dominance p') a b \<and> \<not> dom_lookup (dominance p') b a))"
proof -
  from BuildDominance_char[of p] obtain p' where
    p': "BuildDominance p = Inr p'"
    "\<forall>x\<in>set (alts p). \<forall>y. dom_lookup (dominance p') x y \<longleftrightarrow>
            y \<in> set (alts p) \<and> y \<noteq> x \<and> pair_dominates p x y"
    by blast
  have "\<forall>a\<in>set (alts p). \<forall>b\<in>set (alts p).
        \<not> (dom_lookup (dominance p') a b \<and> dom_lookup (dominance p') b a) \<and>
        ((\<forall>e\<in>set (experts p). rank_of p e a = rank_of p e b) \<longrightarrow>
           \<not> dom_lookup (dominance p') a b \<and> \<not> dom_lookup (dominance p') b a)"
  proof (intro ballI conjI impI)
    fix a b assume ab: "a \<in> set (alts p)" "b \<in> set (alts p)"
    from ab p'(2) have 1: "dom_lookup (dominance p') a b \<Longrightarrow> pair_dominates p a b"
      and 2: "dom_lookup (dominance p') b a \<Longrightarrow> pair_dominates p b a" by blast+
    from 1 2 pair_dominates_asym[of p a b]
    show "\<not> (dom_lookup (dominance p') a b \<and> dom_lookup (dominance p') b a)" by blast
    assume tie: "\<forall>e\<in>set (experts p). rank_of p e a = rank_of p e b"
    from 1 pair_dominates_tie[OF tie] show "\<not> dom_lookup (dominance p') a b" by blast
    from tie have "\<forall>e\<in>set (experts p). rank_of p e b = rank_of p e a" by simp
    from 2 pair_dominates_tie[OF this] show "\<not> dom_lookup (dominance p') b a" by blast
  qed
  with p'(1) show ?thesis by blast
qed

text \<open>
  Claim C10. The dominance relation that \<^verbatim>\<open>BuildDominance\<close> computes is a strict
  partial order on the alternatives: no alternative dominates itself, and dominance is
  transitive.
\<close>
theorem BuildDominance_strict_order:
  "\<exists>p'. BuildDominance p = Inr p' \<and>
     (\<forall>a\<in>set (alts p). \<not> dom_lookup (dominance p') a a) \<and>
     (\<forall>a\<in>set (alts p). \<forall>b\<in>set (alts p). \<forall>c\<in>set (alts p).
        dom_lookup (dominance p') a b \<longrightarrow> dom_lookup (dominance p') b c \<longrightarrow>
        dom_lookup (dominance p') a c)"
proof -
  from BuildDominance_char[of p] obtain p' where
    p': "BuildDominance p = Inr p'"
    "\<forall>x\<in>set (alts p). \<forall>y. dom_lookup (dominance p') x y \<longleftrightarrow>
            y \<in> set (alts p) \<and> y \<noteq> x \<and> pair_dominates p x y"
    by blast
  have irr: "\<forall>a\<in>set (alts p). \<not> dom_lookup (dominance p') a a" using p'(2) by simp
  have "\<forall>a\<in>set (alts p). \<forall>b\<in>set (alts p). \<forall>c\<in>set (alts p).
        dom_lookup (dominance p') a b \<longrightarrow> dom_lookup (dominance p') b c \<longrightarrow>
        dom_lookup (dominance p') a c"
  proof (intro ballI impI)
    fix a b c
    assume m: "a \<in> set (alts p)" "b \<in> set (alts p)" "c \<in> set (alts p)"
      and d: "dom_lookup (dominance p') a b" "dom_lookup (dominance p') b c"
    from m d p'(2) have ab: "pair_dominates p a b" and bc: "pair_dominates p b c" by blast+
    have ac: "pair_dominates p a c" using ab bc by (rule pair_dominates_trans)
    have "c \<noteq> a" using pair_dominates_asym[OF ab] bc by blast
    with ac m p'(2) show "dom_lookup (dominance p') a c" by blast
  qed
  with p'(1) irr show ?thesis by blast
qed

text \<open>
  Claim C5. When there is at least one alternative, \<^verbatim>\<open>BuildDominance\<close> followed
  by \<^verbatim>\<open>ParetoSet\<close> returns a non-empty list: an alternative with the least sum
  of ranks is dominated by no other.
\<close>
theorem ParetoSet_nonempty:
  "alts p \<noteq> [] \<Longrightarrow> \<exists>p'. BuildDominance p = Inr p' \<and> ParetoSet p' \<noteq> []"
proof -
  assume ne: "alts p \<noteq> []"
  from BuildDominance_char[of p] obtain p' where
    p': "BuildDominance p = Inr p'" "alts p' = alts p"
    "\<forall>x\<in>set (alts p). \<forall>y. dom_lookup (dominance p') x y \<longleftrightarrow>
            y \<in> set (alts p) \<and> y \<noteq> x \<and> pair_dominates p x y"
    by blast
  from least_rank_sum[OF ne] obtain a where
    a: "a \<in> set (alts p)" "\<forall>b\<in>set (alts p). rank_sum p a \<le> rank_sum p b" by blast
  have "\<not> dom_lookup (dominance p') b a" if "b \<in> set (alts p)" for b
  proof
    assume "dom_lookup (dominance p') b a"
    with p'(3) that have "pair_dominates p b a" by blast
    from pair_dominates_rank_sum[OF this] a(2) that show False by force
  qed
  with a(1) p'(2) have "a \<in> set (ParetoSet p')" by (simp add: ParetoSet_filter)
  then have "ParetoSet p' \<noteq> []" by auto
  with p'(1) show ?thesis by blast
qed

text \<open>
  Claim C2. For every dominance relation and alternative list, \<^verbatim>\<open>ParetoSet\<close>
  returns exactly the alternatives \<open>a\<close> for which no alternative \<open>b\<close> has
  \<open>dominance(b, a)\<close>, in increasing lexicographic order, and the result does not
  change when the alternatives are declared in another order.
\<close>
theorem ParetoSet_sorted_nondominated:
  "set (ParetoSet p) = {a \<in> set (alts p). \<forall>b\<in>set (alts p). \<not> dom_lookup (dominance p) b a} \<and>
   sorted (ParetoSet p) \<and>
   (\<forall>as. mset as = mset (alts p) \<longrightarrow> ParetoSet (p\<lparr>alts := as\<rparr>) = ParetoSet p)"
proof -
  have 1: "set (ParetoSet p) = {a \<in> set (alts p). \<forall>b\<in>set (alts p). \<not> dom_lookup (dominance p) b a}"
    by (auto simp: ParetoSet_filter)
  have 2: "sorted (ParetoSet p)" by (simp add: ParetoSet_filter)
  have 3: "ParetoSet (p\<lparr>alts := as\<rparr>) = ParetoSet p" if m: "mset as = mset (alts p)" for as
  proof -
    from m have s: "set as = set (alts p)" by (rule mset_eq_setD)
    have "mset (filter (\<lambda>a. \<forall>b\<in>set (alts p). \<not> dom_lookup (dominance p) b a) as) =
          mset (filter (\<lambda>a. \<forall>b\<in>set (alts p). \<not> dom_lookup (dominance p) b a) (alts p))"
      using m by simp
    then show ?thesis by (simp add: ParetoSet_filter s sort_mset_cong)
  qed
  from 1 2 3 show ?thesis by blast
qed

lemma scenario_alts: "alts scenario_ranks = [''A'', ''B'', ''C'']"
  and scenario_experts: "experts scenario_ranks = [''E1'', ''E2'']"
  by (simp_all add: scenario_ranks_def)

lemma scenario_rank_of:
  "rank_of scenario_ranks ''E1'' ''A'' = 1" "rank_of scenario_ranks ''E1'' ''B'' = 2"
  "rank_of scenario_ranks ''E1'' ''C'' = 3" "rank_of scenario_ranks ''E2'' ''A'' = 1"
  "rank_of scenario_ranks ''E2'' ''B'' = 3" "rank_of scenario_ranks ''E2'' ''C'' = 2"
  by (simp_all add: scenario_ranks_def rank_of_def)

theorem BuildDominance_pairwise_witness:
  "\<exists>p'. BuildDominance scenario_ranks = Inr p' \<and>
     dom_lookup (dominance p') ''A'' ''B'' \<and> dom_lookup (dominance p') ''A'' ''C'' \<and>
     \<not> dom_lookup (dominance p') ''B'' ''C'' \<and> \<not> dom_lookup (dominance p') ''C'' ''B''"
  using BuildDominance_pairwise[of scenario_ranks]
  by (simp add: scenario_alts scenario_experts scenario_rank_of) blast

theorem BuildDominance_antisymmetric_witness:
  "\<exists>p'. BuildDominance scenario_ranks = Inr p' \<and>
     \<not> (dom_lookup (dominance p') ''A'' ''B'' \<and> dom_lookup (dominance p') ''B'' ''A'') \<and>
     \<not> (dom_lookup (dominance p') ''B'' ''C'' \<and> dom_lookup (dominance p') ''C'' ''B'')"
  using BuildDominance_antisymmetric[of scenario_ranks]
  by (simp add: scenario_alts scenario_experts scenario_rank_of) blast

theorem BuildDominance_strict_order_witness:
  "\<exists>p'. BuildDominance scenario_ranks = Inr p' \<and>
     \<not> dom_lookup (dominance p') ''A'' ''A'' \<and>
     (dom_lookup (dominance p') ''A'' ''B'' \<longrightarrow> dom_lookup (dominance p') ''B'' ''C'' \<longrightarrow>
      dom_lookup (dominance p') ''A'' ''C'')"
  using BuildDominance_strict_order[of scenario_ranks]
  by (simp add: scenario_alts) blast

theorem ParetoSet_nonempty_witness:
  "alts scenario_ranks \<noteq> [] \<and>
   (\<exists>p'. BuildDominance scenario_ranks = Inr p' \<and> ParetoSet p' \<noteq> [])"
  using ParetoSet_nonempty[of scenario_ranks]
  by (simp add: scenario_alts)

theorem ParetoSet_sorted_nondominated_witness:
  "mset [''C'', ''A'', ''B''] = mset (alts scenario_dominance) \<and>
   ParetoSet (scenario_dominance\<lparr>alts := [''C'', ''A'', ''B'']\<rparr>) = ParetoSet scenario_dominance \<and>
   set (ParetoSet scenario_dominance) = {''A''}"
proof -
  have m: "mset [''C'', ''A'', ''B''] = mset (alts scenario_dominance)"
    by (simp add: scenario_dominance_def scenario_ranks_def)
  have s: "{a \<in> set (alts scenario_dominance).
            \<forall>b\<in>set (alts scenario_dominance). \<not> dom_lookup (dominance scenario_dominance) b a} = {''A''}"
    by (auto simp: scenario_dominance_def scenario_ranks_def dom_lookup_def)
  from ParetoSet_sorted_nondominated[of scenario_dominance] m s show ?thesis by simp
qed

subsection \<open>The Savage criterion\<close>

lemma fl_0: "fl 0 = 0"
  by (simp add: fl_def)

lemma fsub_self: "fsub x x = 0"
  by (simp add: fsub_def fl_0)

lemma max_loop_char:
  "\<forall>a\<in>set as. j < length (outcomes_of u a) \<Longrightarrow>
   max_loop u j as m = Inr (Max (insert m ((\<lambda>b. outcomes_of u b ! j) ` set as)))"
proof (induction as arbitrary: m)
  case Nil
  then show ?case by simp
next
  case (Cons a as)
  let ?v = "outcomes_of u a ! j"
  let ?S = "(\<lambda>b. outcomes_of u b ! j) ` set as"
  have fin: "finite ?S" by simp
  have ix: "index (outcomes_of u a) j = Inr ?v" using Cons.prems by (simp add: index_def)
  have "max_loop u j (a # as) m = max_loop u j as (if ?v > m then ?v else m)"
    using ix by simp
  also have "\<dots> = Inr (Max (insert (if ?v > m then ?v else m) ?S))"
    using Cons.prems by (intro Cons.IH) simp
  also have "Max (insert (if ?v > m then ?v else m) ?S) = Max (insert m (insert ?v ?S))"
  proof (cases "?S = {}")
    case True
    then show ?thesis by (simp add: max_def)
  next
    case False
    then show ?thesis using fin by (simp add: max_def)
  qed
  finally show ?case by simp
qed

lemma states_loop_char:
  "\<forall>j\<in>set js. j < length mo \<and> (\<forall>a\<in>set (alternatives u). j < length (outcomes_of u a)) \<Longrightarrow>
   \<exists>mo'. states_loop u js mo = Inr mo' \<and> length mo' = length mo \<and>
     (\<forall>j<length mo. mo' ! j = (if j \<in> set js then spec_M u j else mo ! j))"
proof (induction js arbitrary: mo)
  case Nil
  then show ?case by simp
next
  case (Cons j js)
  have m: "max_loop u j (alternatives u) 0 = Inr (spec_M u j)"
    unfolding spec_M_def using Cons.prems by (intro max_loop_char) simp
  let ?mo1 = "mo[j := spec_M u j]"
  have "\<forall>j\<in>set js. j < length ?mo1 \<and> (\<forall>a\<in>set (alternatives u). j < length (outcomes_of u a))"
    using Cons.prems by simp
  with Cons.IH[of ?mo1] obtain mo' where
    mo': "states_loop u js ?mo1 = Inr mo'" "length mo' = length ?mo1"
      "\<forall>i<length ?mo1. mo' ! i = (if i \<in> set js then spec_M u i else ?mo1 ! i)"
    by blast
  have 1: "states_loop u (j # js) mo = Inr mo'" using m mo'(1) by simp
  have 2: "length mo' = length mo" using mo'(2) by simp
  have 3: "\<forall>i<length mo. mo' ! i = (if i \<in> set (j # js) then spec_M u i else mo ! i)"
    using mo'(3) by (auto simp: nth_list_update)
  from 1 2 3 show ?case by blast
qed

lemma regret_loop_char:
  "j + length os \<le> length mo \<Longrightarrow>
   regret_loop mo j os m =
     Inr (Max (insert m ((\<lambda>i. fsub (mo ! (j + i)) (os ! i)) ` {..< length os})))"
proof (induction os arbitrary: j m)
  case Nil
  then show ?case by simp
next
  case (Cons x os)
  let ?r = "fsub (mo ! j) x"
  let ?S = "(\<lambda>i. fsub (mo ! (Suc j + i)) (os ! i)) ` {..< length os}"
  have fin: "finite ?S" by simp
  have ix: "index mo j = Inr (mo ! j)" using Cons.prems by (simp add: index_def)
  have img: "(\<lambda>i. fsub (mo ! (j + i)) ((x # os) ! i)) ` {..< length (x # os)} = insert ?r ?S"
  proof -
    have "{..< length (x # os)} = insert 0 (Suc ` {..< length os})"
      by (simp add: lessThan_Suc_eq_insert_0)
    then show ?thesis by (simp add: image_image)
  qed
  have "regret_loop mo j (x # os) m = regret_loop mo (Suc j) os (if ?r > m then ?r else m)"
    using ix by (simp add: Let_def)
  also have "\<dots> = Inr (Max (insert (if ?r > m then ?r else m) ?S))"
    using Cons.prems by (intro Cons.IH) simp
  also have "Max (insert (if ?r > m then ?r else m) ?S) = Max (insert m (insert ?r ?S))"
  proof (cases "?S = {}")
    case True
    then show ?thesis by (simp add: max_def)
  next
    case False
    then show ?thesis using fin by (simp add: max_def)
  qed
  finally show ?case using img by simp
qed

lemma savage_loop_char:
  "\<forall>a\<in>set as. length (outcomes_of u a) \<le> length mo \<Longrightarrow>
   \<exists>sav. savage_loop u mo as s = Inr sav \<and>
     (\<forall>a. sav a = (if a \<in> set as
        then Some (Max (insert 0 ((\<lambda>i. fsub (mo ! i) (outcomes_of u a ! i)) ` {..< length (outcomes_of u a)})))
        else s a))"
proof (induction as arbitrary: s)
  case Nil
  then show ?case by simp
next
  case (Cons a as)
  let ?r = "\<lambda>a. Max (insert 0 ((\<lambda>i. fsub (mo ! i) (outcomes_of u a ! i)) ` {..< length (outcomes_of u a)}))"
  have r: "regret_loop mo 0 (outcomes_of u a) 0 = Inr (?r a)"
    using Cons.prems regret_loop_char[of 0 "outcomes_of u a" mo 0] by simp
  have "\<forall>a\<in>set as. length (outcomes_of u a) \<le> length mo" using Cons.prems by simp
  with Cons.IH[of "s(a \<mapsto> ?r a)"] obtain sav where
    sav: "savage_loop u mo as (s(a \<mapsto> ?r a)) = Inr sav"
      "\<forall>b. sav b = (if b \<in> set as then Some (?r b) else (s(a \<mapsto> ?r a)) b)"
    by blast
  have 1: "savage_loop u mo (a # as) s = Inr sav" using r sav(1) by simp
  have 2: "\<forall>b. sav b = (if b \<in> set (a # as) then Some (?r b) else s b)"
    using sav(2) by auto
  from 1 2 show ?case by blast
qed

lemma CalculateSavage_char:
  assumes "complete_matrix u"
  shows "\<exists>sav. CalculateSavage u = Inr sav \<and>
     (\<forall>a. sav a = (if a \<in> set (alternatives u) then Some (spec_Savage u a) else None))"
proof -
  let ?n = "nat (statesCount u)"
  from assms have n0: "\<not> statesCount u < 0"
    and len: "\<forall>a\<in>set (alternatives u). length (outcomes_of u a) = ?n"
    by (simp_all add: complete_matrix_def)
  have "\<forall>j\<in>set [0..<?n]. j < length (replicate ?n (0::real)) \<and>
          (\<forall>a\<in>set (alternatives u). j < length (outcomes_of u a))"
    using len by simp
  with states_loop_char[of "[0..<?n]" "replicate ?n 0" u] obtain mo where
    mo: "states_loop u [0..<?n] (replicate ?n 0) = Inr mo" "length mo = ?n"
      "\<forall>j<?n. mo ! j = spec_M u j"
    by auto
  have "\<forall>a\<in>set (alternatives u). length (outcomes_of u a) \<le> length mo"
    using len mo(2) by simp
  with savage_loop_char[of "alternatives u" u mo Map.empty] obtain sav where
    sav: "savage_loop u mo (alternatives u) Map.empty = Inr sav"
      "\<forall>a. sav a = (if a \<in> set (alternatives u)
        then Some (Max (insert 0 ((\<lambda>i. fsub (mo ! i) (outcomes_of u a ! i)) ` {..< length (outcomes_of u a)})))
        else None)"
    by blast
  have 1: "CalculateSavage u = Inr sav" using n0 mo(1) sav(1) by (simp add: CalculateSavage_def)
  have 2: "sav a = (if a \<in> set (alternatives u) then Some (spec_Savage u a) else None)" for a
  proof (cases "a \<in> set (alternatives u)")
    case False
    with sav(2) show ?thesis by simp
  next
    case True
    with len have l: "length (outcomes_of u a) = ?n" by simp
    have "(\<lambda>i. fsub (mo ! i) (outcomes_of u a ! i)) ` {..< ?n} =
          (\<lambda>j. fsub (spec_M u j) (outcomes_of u a ! j)) ` {..< ?n}"
      using mo(3) by (intro image_cong) simp_all
    with sav(2) True l show ?thesis by (simp add: spec_Savage_def)
  qed
  from 1 2 show ?thesis by blast
qed

lemma spec_Savage_nonneg: "0 \<le> spec_Savage u a"
  unfolding spec_Savage_def by (rule Max_ge) simp_all

lemma spec_M_attained:
  assumes a: "a \<in> set (alternatives u)"
    and nonneg: "0 \<le> outcomes_of u a ! j"
    and best: "\<forall>b\<in>set (alternatives u). outcomes_of u b ! j \<le> outcomes_of u a ! j"
  shows "spec_M u j = outcomes_of u a ! j"
  unfolding spec_M_def
proof (rule Max_eqI)
  show "finite (insert 0 ((\<lambda>b. outcomes_of u b ! j) ` set (alternatives u)))" by simp
  show "outcomes_of u a ! j \<in> insert 0 ((\<lambda>b. outcomes_of u b ! j) ` set (alternatives u))"
    using a by simp
  fix y assume "y \<in> insert 0 ((\<lambda>b. outcomes_of u b ! j) ` set (alternatives u))"
  with nonneg best show "y \<le> outcomes_of u a ! j" by auto
qed

lemma spec_Savage_zero:
  assumes "\<forall>j<nat (statesCount u). spec_M u j = outcomes_of u a ! j"
  shows "spec_Savage u a = 0"
proof -
  have "(\<lambda>j. fsub (spec_M u j) (outcomes_of u a ! j)) ` {..< nat (statesCount u)} \<subseteq> {0}"
    using assms by (auto simp: fsub_self)
  then have e: "insert 0 ((\<lambda>j. fsub (spec_M u j) (outcomes_of u a ! j)) ` {..< nat (statesCount u)}) = {0}"
    by auto
  show ?thesis unfolding spec_Savage_def e by simp
qed

text \<open>
  Claim C3. For a complete utility matrix with positive utilities,
  \<^verbatim>\<open>CalculateSavage\<close> returns without a panic; the score of every alternative is
  \<open>max\<^sub>j (M\<^sub>j - U(a, j))\<close> with \<open>M\<^sub>j\<close> the running maximum from \<open>0\<close>, it is
  greater than or equal to \<open>0\<close>, and it is exactly \<open>0\<close> for an alternative whose
  utility is the largest one in every state.
\<close>
theorem CalculateSavage_regret:
  assumes "complete_matrix u"
    and "\<forall>a\<in>set (alternatives u). \<forall>v\<in>set (outcomes_of u a). 0 < v"
  shows "\<exists>savage. CalculateSavage u = Inr savage \<and>
     (\<forall>a\<in>set (alternatives u).
        savage a = Some (spec_Savage u a) \<and> 0 \<le> spec_Savage u a \<and>
        ((\<forall>j<nat (statesCount u). \<forall>b\<in>set (alternatives u).
             outcomes_of u b ! j \<le> outcomes_of u a ! j) \<longrightarrow> savage a = Some 0))"
proof -
  from CalculateSavage_char[OF assms(1)] obtain sav where
    sav: "CalculateSavage u = Inr sav"
      "\<forall>a. sav a = (if a \<in> set (alternatives u) then Some (spec_Savage u a) else None)"
    by blast
  have "sav a = Some (spec_Savage u a) \<and> 0 \<le> spec_Savage u a \<and>
        ((\<forall>j<nat (statesCount u). \<forall>b\<in>set (alternatives u).
             outcomes_of u b ! j \<le> outcomes_of u a ! j) \<longrightarrow> sav a = Some 0)"
    if a: "a \<in> set (alternatives u)" for a
  proof (intro conjI impI)
    show s: "sav a = Some (spec_Savage u a)" using sav(2) a by simp
    show "0 \<le> spec_Savage u a" by (rule spec_Savage_nonneg)
    assume best: "\<forall>j<nat (statesCount u). \<forall>b\<in>set (alternatives u).
             outcomes_of u b ! j \<le> outcomes_of u a ! j"
    have "spec_M u j = outcomes_of u a ! j" if j: "j < nat (statesCount u)" for j
    proof (rule spec_M_attained[OF a])
      from assms(1) a j have "j < length (outcomes_of u a)" by (simp add: complete_matrix_def)
      then have "outcomes_of u a ! j \<in> set (outcomes_of u a)" by simp
      with assms(2) a show "0 \<le> outcomes_of u a ! j" by force
      from best j show "\<forall>b\<in>set (alternatives u). outcomes_of u b ! j \<le> outcomes_of u a ! j"
        by simp
    qed
    then have "spec_Savage u a = 0" by (intro spec_Savage_zero) simp
    with s show "sav a = Some 0" by simp
  qed
  with sav(1) show ?thesis by blast
qed

lemma best_everywhere_simps:
  "alternatives best_everywhere = [''A'', ''B'', ''C'']"
  "statesCount best_everywhere = 2"
  "outcomes_of best_everywhere ''A'' = [10, 2]"
  "outcomes_of best_everywhere ''B'' = [6, 6]"
  "outcomes_of best_everywhere ''C'' = [10, 6]"
  by (simp_all add: best_everywhere_def outcomes_of_def)

theorem CalculateSavage_regret_witness:
  "complete_matrix best_everywhere \<and>
   outcomes_of best_everywhere ''A'' = [10, 2] \<and>
   outcomes_of best_everywhere ''B'' = [6, 6] \<and>
   outcomes_of best_everywhere ''C'' = [10, 6] \<and>
   (\<exists>savage. CalculateSavage best_everywhere = Inr savage \<and> savage ''C'' = Some 0 \<and>
      (\<forall>a\<in>set (alternatives best_everywhere). \<exists>s. savage a = Some s \<and> 0 \<le> s))"
proof -
  have c: "complete_matrix best_everywhere"
    by (simp add: complete_matrix_def best_everywhere_simps)
  have p: "\<forall>a\<in>set (alternatives best_everywhere). \<forall>v\<in>set (outcomes_of best_everywhere a). 0 < v"
    by (simp add: best_everywhere_simps)
  have b: "\<forall>j<nat (statesCount best_everywhere). \<forall>b\<in>set (alternatives best_everywhere).
             outcomes_of best_everywhere b ! j \<le> outcomes_of best_everywhere ''C'' ! j"
    by (simp add: best_everywhere_simps less_Suc_eq numeral_2_eq_2)
  have m: "''C'' \<in> set (alternatives best_everywhere)" by (simp add: best_everywhere_simps)
  from CalculateSavage_regret[OF c p] obtain savage where
    s: "CalculateSavage best_everywhere = Inr savage"
      "\<forall>a\<in>set (alternatives best_everywhere).
        savage a = Some (spec_Savage best_everywhere a) \<and> 0 \<le> spec_Savage best_everywhere a \<and>
        ((\<forall>j<nat (statesCount best_everywhere). \<forall>b\<in>set (alternatives best_everywhere).
             outcomes_of best_everywhere b ! j \<le> outcomes_of best_everywhere a ! j) \<longrightarrow> savage a = Some 0)"
    by blast
  from s(2) m b have "savage ''C'' = Some 0" by blast
  moreover from s(2) have "\<forall>a\<in>set (alternatives best_everywhere). \<exists>s. savage a = Some s \<and> 0 \<le> s"
    by blast
  ultimately have "\<exists>savage. CalculateSavage best_everywhere = Inr savage \<and> savage ''C'' = Some 0 \<and>
      (\<forall>a\<in>set (alternatives best_everywhere). \<exists>s. savage a = Some s \<and> 0 \<le> s)"
    using s(1) by blast
  with c show ?thesis by (simp only: best_everywhere_simps simp_thms)
qed

subsection \<open>Wald, MaxiMax and Hurwicz\<close>

lemma minmax_loop_char:
  "minmax_loop vs (mn, mx) = (Min (insert mn (set vs)), Max (insert mx (set vs)))"
proof (induction vs arbitrary: mn mx)
  case Nil
  then show ?case by simp
next
  case (Cons v vs)
  have "(if v < mn then v else mn) = min mn v" by (simp add: min_def)
  moreover have "Min (insert (min mn v) (set vs)) = Min (insert mn (insert v (set vs)))"
    by (cases "set vs = {}") (simp_all add: min.assoc)
  ultimately have 1:
    "Min (insert (if v < mn then v else mn) (set vs)) = Min (insert mn (insert v (set vs)))"
    by simp
  have "(if v > mx then v else mx) = max mx v" by (simp add: max_def)
  moreover have "Max (insert (max mx v) (set vs)) = Max (insert mx (insert v (set vs)))"
    by (cases "set vs = {}") (simp_all add: max.assoc)
  ultimately have 2:
    "Max (insert (if v > mx then v else mx) (set vs)) = Max (insert mx (insert v (set vs)))"
    by simp
  show ?case using 1 2 by (simp add: Cons.IH)
qed

lemma criteria_loop_step:
  "criteria_loop u alpha i (a # rest) res =
     criteria_loop u alpha (Suc i) rest
       (if outcomes_of u a = [] then res else res[i := criteria_of u alpha a])"
proof (cases "outcomes_of u a")
  case Nil
  then show ?thesis by simp
next
  case (Cons d0 ds)
  have "insert d0 (insert d0 (set ds)) = insert d0 (set ds)" by auto
  then show ?thesis
    using Cons by (simp add: minmax_loop_char criteria_of_def)
qed

lemma criteria_loop_length: "length (criteria_loop u alpha i as res) = length res"
  by (induction as arbitrary: i res) (simp_all add: criteria_loop_step del: criteria_loop.simps(2))

lemma criteria_loop_nth:
  "k < length res \<Longrightarrow>
   criteria_loop u alpha i as res ! k =
     (if i \<le> k \<and> k < i + length as \<and> outcomes_of u (as ! (k - i)) \<noteq> []
      then criteria_of u alpha (as ! (k - i)) else res ! k)"
proof (induction as arbitrary: i res)
  case Nil
  then show ?case by auto
next
  case (Cons a as)
  let ?res1 = "if outcomes_of u a = [] then res else res[i := criteria_of u alpha a]"
  have l: "k < length ?res1" using Cons.prems by simp
  have "criteria_loop u alpha i (a # as) res ! k = criteria_loop u alpha (Suc i) as ?res1 ! k"
    by (simp only: criteria_loop_step)
  also have "\<dots> = (if Suc i \<le> k \<and> k < Suc i + length as \<and> outcomes_of u (as ! (k - Suc i)) \<noteq> []
      then criteria_of u alpha (as ! (k - Suc i)) else ?res1 ! k)"
    using l by (rule Cons.IH)
  also have "\<dots> = (if i \<le> k \<and> k < i + length (a # as) \<and> outcomes_of u ((a # as) ! (k - i)) \<noteq> []
      then criteria_of u alpha ((a # as) ! (k - i)) else res ! k)"
  proof (cases "k = i")
    case True
    then show ?thesis using Cons.prems by simp
  next
    case False
    then show ?thesis using Cons.prems
      by (cases "i < k") (auto simp: nth_Cons' Suc_diff_Suc le_Suc_eq)
  qed
  finally show ?case .
qed

lemma criteria_of_empty: "outcomes_of u a = [] \<Longrightarrow> criteria_of u alpha a = zero_Alternative"
  by (simp add: criteria_of_def)

lemma CalculateCriteria_map:
  "CalculateCriteria u alpha = map (criteria_of u alpha) (alternatives u)"
proof (rule nth_equalityI)
  show "length (CalculateCriteria u alpha) = length (map (criteria_of u alpha) (alternatives u))"
    by (simp add: CalculateCriteria_def criteria_loop_length)
  fix k assume "k < length (CalculateCriteria u alpha)"
  then have k: "k < length (alternatives u)"
    by (simp add: CalculateCriteria_def criteria_loop_length)
  then show "CalculateCriteria u alpha ! k = map (criteria_of u alpha) (alternatives u) ! k"
    by (simp add: CalculateCriteria_def criteria_loop_nth criteria_of_empty)
qed

lemma fl_1: "fl 1 = 1"
  by (simp add: fl_def ilog2_def round_even_def pow2_def bitlen_def compute_floorlog)

lemma wald_le_maxmax: "wald (criteria_of u alpha a) \<le> maxmax (criteria_of u alpha a)"
proof (cases "outcomes_of u a = []")
  case True
  then show ?thesis by (simp add: criteria_of_def zero_Alternative_def)
next
  case False
  then obtain v where v: "v \<in> set (outcomes_of u a)" by (cases "outcomes_of u a") auto
  have "Min (set (outcomes_of u a)) \<le> v" using v by simp
  also have "v \<le> Max (set (outcomes_of u a))" using v by simp
  finally show ?thesis using False by (simp add: criteria_of_def)
qed

lemma hurwicz_0:
  assumes "\<forall>v\<in>set (outcomes_of u a). is_float64 v"
  shows "hurwicz (criteria_of u 0 a) = wald (criteria_of u 0 a)"
proof (cases "outcomes_of u a = []")
  case True
  then show ?thesis by (simp add: criteria_of_def zero_Alternative_def)
next
  case False
  then have "Min (set (outcomes_of u a)) \<in> set (outcomes_of u a)" by (intro Min_in) simp_all
  with assms have "fl (Min (set (outcomes_of u a))) = Min (set (outcomes_of u a))"
    by (simp add: is_float64_def)
  then show ?thesis using False
    by (simp add: criteria_of_def fadd_def fmul_def fsub_def fl_0 fl_1)
qed

lemma hurwicz_1:
  assumes "\<forall>v\<in>set (outcomes_of u a). is_float64 v"
  shows "hurwicz (criteria_of u 1 a) = maxmax (criteria_of u 1 a)"
proof (cases "outcomes_of u a = []")
  case True
  then show ?thesis by (simp add: criteria_of_def zero_Alternative_def)
next
  case False
  then have "Max (set (outcomes_of u a)) \<in> set (outcomes_of u a)" by (intro Max_in) simp_all
  with assms have "fl (Max (set (outcomes_of u a))) = Max (set (outcomes_of u a))"
    by (simp add: is_float64_def)
  then show ?thesis using False
    by (simp add: criteria_of_def fadd_def fmul_def fsub_def fl_0 fl_1)
qed

text \<open>
  Claim C4. For a complete utility matrix with at least one state, whose utilities are
  \<^verbatim>\<open>float64\<close> values, and for every alternative: the Wald score is the minimum
  and the MaxiMax score the maximum of its utilities, the Wald score is less than or
  equal to the MaxiMax score, and the Hurwicz score equals the Wald score for
  \<open>\<alpha> = 0\<close> and the MaxiMax score for \<open>\<alpha> = 1\<close>.
\<close>
theorem CalculateCriteria_wald_maxmax_hurwicz:
  assumes "0 < statesCount u" and "complete_matrix u"
    and "\<forall>a\<in>set (alternatives u). \<forall>v\<in>set (outcomes_of u a). is_float64 v"
    and "k < length (alternatives u)"
  shows "name (CalculateCriteria u alpha ! k) = alternatives u ! k \<and>
     wald (CalculateCriteria u alpha ! k) = Min (set (outcomes_of u (alternatives u ! k))) \<and>
     maxmax (CalculateCriteria u alpha ! k) = Max (set (outcomes_of u (alternatives u ! k))) \<and>
     wald (CalculateCriteria u alpha ! k) \<le> maxmax (CalculateCriteria u alpha ! k) \<and>
     hurwicz (CalculateCriteria u 0 ! k) = wald (CalculateCriteria u 0 ! k) \<and>
     hurwicz (CalculateCriteria u 1 ! k) = maxmax (CalculateCriteria u 1 ! k)"
proof -
  let ?a = "alternatives u ! k"
  have a: "?a \<in> set (alternatives u)" using assms(4) by simp
  with assms(1,2) have "length (outcomes_of u ?a) \<noteq> 0" by (simp add: complete_matrix_def)
  then have ne: "outcomes_of u ?a \<noteq> []" by simp
  have f: "\<forall>v\<in>set (outcomes_of u ?a). is_float64 v" using assms(3) a by blast
  have c: "CalculateCriteria u al ! k = criteria_of u al ?a" for al
    using assms(4) by (simp add: CalculateCriteria_map)
  show ?thesis
    unfolding c using ne wald_le_maxmax[of u alpha ?a] hurwicz_0[OF f] hurwicz_1[OF f]
    by (simp add: criteria_of_def)
qed

lemma scenario_utilities_simps:
  "alternatives scenario_utilities = [''A'', ''B'']"
  "statesCount scenario_utilities = 2"
  "outcomes_of scenario_utilities ''A'' = [10, 2]"
  "outcomes_of scenario_utilities ''B'' = [6, 6]"
  by (simp_all add: scenario_utilities_def outcomes_of_def)

lemma is_float64_small: "is_float64 2" "is_float64 6" "is_float64 10"
  by (simp_all add: is_float64_def fl_def ilog2_def round_even_def pow2_def bitlen_def compute_floorlog)

theorem CalculateCriteria_wald_maxmax_hurwicz_witness:
  "0 < statesCount scenario_utilities \<and> complete_matrix scenario_utilities \<and>
   is_float64 2 \<and> is_float64 6 \<and> is_float64 10 \<and>
   0 < length (alternatives scenario_utilities) \<and>
   wald (CalculateCriteria scenario_utilities (1 / 2) ! 0) = 2 \<and>
   maxmax (CalculateCriteria scenario_utilities (1 / 2) ! 0) = 10 \<and>
   hurwicz (CalculateCriteria scenario_utilities 0 ! 0) = 2 \<and>
   hurwicz (CalculateCriteria scenario_utilities 1 ! 0) = 10"
proof -
  have 1: "0 < statesCount scenario_utilities" by (simp add: scenario_utilities_simps)
  have 2: "complete_matrix scenario_utilities"
    by (simp add: complete_matrix_def scenario_utilities_simps)
  have 3: "\<forall>a\<in>set (alternatives scenario_utilities). \<forall>v\<in>set (outcomes_of scenario_utilities a). is_float64 v"
    by (simp add: scenario_utilities_simps is_float64_small)
  have 4: "0 < length (alternatives scenario_utilities)" by (simp add: scenario_utilities_simps)
  from CalculateCriteria_wald_maxmax_hurwicz[OF 1 2 3 4, of "1 / 2"]
    CalculateCriteria_wald_maxmax_hurwicz[OF 1 2 3 4, of 0]
    CalculateCriteria_wald_maxmax_hurwicz[OF 1 2 3 4, of 1] 1 2 4
  show ?thesis by (simp add: scenario_utilities_simps is_float64_small)
qed

subsection \<open>The Laplace criterion\<close>

lemma sum_loop_replicate:
  "\<forall>k\<in>{1..m + n}. is_float64 (real k * c) \<Longrightarrow>
   sum_loop (replicate n c) (real m * c) = real (m + n) * c"
proof (induction n arbitrary: m)
  case 0
  then show ?case by simp
next
  case (Suc n)
  from Suc.prems have "is_float64 (real (Suc m) * c)" by (rule bspec) simp
  then have "fadd (real m * c) c = real (Suc m) * c"
    by (simp add: fadd_def is_float64_def algebra_simps)
  moreover from Suc.prems have "sum_loop (replicate n c) (real (Suc m) * c) = real (Suc m + n) * c"
    by (intro Suc.IH) simp
  ultimately show ?case by simp
qed

lemma laplace_loop_char:
  "float64_of_int (statesCount u) \<noteq> 0 \<Longrightarrow>
   \<exists>lap. laplace_loop u as l = Inr lap \<and>
     (\<forall>a. lap a = (if a \<in> set as
        then Some (fl (sum_loop (outcomes_of u a) 0 / float64_of_int (statesCount u)))
        else l a))"
proof (induction as arbitrary: l)
  case Nil
  then show ?case by simp
next
  case (Cons a as)
  let ?avg = "\<lambda>a. fl (sum_loop (outcomes_of u a) 0 / float64_of_int (statesCount u))"
  from Cons.IH[OF Cons.prems, of "l(a \<mapsto> ?avg a)"] obtain lap where
    lap: "laplace_loop u as (l(a \<mapsto> ?avg a)) = Inr lap"
      "\<forall>b. lap b = (if b \<in> set as then Some (?avg b) else (l(a \<mapsto> ?avg a)) b)"
    by blast
  have 1: "laplace_loop u (a # as) l = Inr lap"
    using Cons.prems lap(1) by (simp add: fdiv_def)
  have 2: "\<forall>b. lap b = (if b \<in> set (a # as) then Some (?avg b) else l b)"
    using lap(2) by auto
  from 1 2 show ?case by blast
qed

lemma round_even_of_int: "round_even (of_int m) = m"
  by (simp add: round_even_def)

lemma is_float64_of_int:
  assumes "\<bar>k\<bar> < 2 ^ 53"
  shows "is_float64 (of_int k)"
proof (cases "k = 0")
  case True
  then show ?thesis by (simp add: is_float64_def fl_0)
next
  case False
  let ?n = "nat \<bar>k\<bar>"
  let ?L = "floorlog 2 ?n"
  from False have n: "0 < ?n" by simp
  have "?n < 2 ^ 53" using assms by (simp add: nat_less_iff)
  then have L53: "?L \<le> 53" by (intro floorlog_leI) simp_all
  have L1: "1 \<le> ?L" using n by (simp add: floorlog_def)
  have one: "(1::real) \<le> \<bar>of_int k\<bar>" using False by (simp flip: of_int_abs)
  have fl_abs: "\<lfloor>\<bar>of_int k :: real\<bar>\<rfloor> = \<bar>k\<bar>" by (simp flip: of_int_abs)
  have il: "ilog2 \<bar>of_int k\<bar> = int ?L - 1"
    using one by (simp add: ilog2_def fl_abs bitlen_def)
  define m where "m = 53 - ?L"
  have e: "max (ilog2 \<bar>of_int k\<bar> - 52) (- 1074) = - int m"
    using L53 L1 by (simp add: il m_def)
  have p: "pow2 (- int m) = 1 / 2 ^ m" by (cases "m = 0") (simp_all add: pow2_def)
  have "(of_int k :: real) / pow2 (- int m) = of_int (k * 2 ^ m)" by (simp add: p)
  then have r: "round_even (of_int k / pow2 (- int m)) = k * 2 ^ m"
    by (simp only: round_even_of_int)
  have "fl (of_int k) = of_int (k * 2 ^ m) * pow2 (- int m)"
    using False by (simp add: fl_def e r Let_def del: of_int_mult of_int_power)
  also have "\<dots> = of_int k" by (simp add: p)
  finally show ?thesis by (simp add: is_float64_def)
qed

lemma CalculateLaplace_exact_sums:
  assumes "0 < statesCount u" and "a \<in> set (alternatives u)"
    and "outcomes_of u a = replicate (nat (statesCount u)) c"
    and "is_float64 (of_int (statesCount u))"
    and "\<forall>k\<in>{1..nat (statesCount u)}. is_float64 (real k * c)"
  shows "\<exists>laplace. CalculateLaplace u = Inr laplace \<and> laplace a = Some c"
proof -
  let ?n = "nat (statesCount u)"
  have n: "real ?n = of_int (statesCount u)" "0 < ?n" using assms(1) by simp_all
  have f: "float64_of_int (statesCount u) = real ?n"
    using assms(4) n by (simp add: float64_of_int_def is_float64_def)
  then have nz: "float64_of_int (statesCount u) \<noteq> 0" using n by simp
  from assms(5) have "\<forall>k\<in>{1..0 + ?n}. is_float64 (real k * c)" by simp
  from sum_loop_replicate[OF this] have s: "sum_loop (outcomes_of u a) 0 = real ?n * c"
    using assms(3) by simp
  have "(1::nat) \<in> {1..?n}" using n(2) by simp
  with assms(5) have "is_float64 (real 1 * c)" by (rule bspec)
  then have c: "fl c = c" by (simp add: is_float64_def)
  from laplace_loop_char[OF nz, of "alternatives u" Map.empty] obtain lap where
    lap: "laplace_loop u (alternatives u) Map.empty = Inr lap"
      "\<forall>b. lap b = (if b \<in> set (alternatives u)
        then Some (fl (sum_loop (outcomes_of u b) 0 / float64_of_int (statesCount u)))
        else None)"
    by blast
  from lap(2) assms(2) have "lap a = Some (fl (real ?n * c / real ?n))" by (simp add: s f)
  also have "real ?n * c / real ?n = c" using n(2) by simp
  finally have "lap a = Some c" using c by simp
  with lap(1) show ?thesis by (simp add: CalculateLaplace_def)
qed

lemma CalculateLaplace_integer:
  assumes "0 < statesCount u" and "a \<in> set (alternatives u)"
    and "outcomes_of u a = replicate (nat (statesCount u)) (of_int i)"
    and "0 < i" and "statesCount u * i < 2 ^ 53"
  shows "\<exists>laplace. CalculateLaplace u = Inr laplace \<and> laplace a = Some (of_int i)"
proof (rule CalculateLaplace_exact_sums[OF assms(1,2,3)])
  have "statesCount u \<le> statesCount u * i"
    using mult_left_mono[of 1 i "statesCount u"] assms(1,4) by simp
  with assms(5) have "statesCount u < 2 ^ 53" by linarith
  with assms(1) have "\<bar>statesCount u\<bar> < 2 ^ 53" by linarith
  then show "is_float64 (of_int (statesCount u))" by (rule is_float64_of_int)
  show "\<forall>k\<in>{1..nat (statesCount u)}. is_float64 (real k * of_int i)"
  proof
    fix k assume "k \<in> {1..nat (statesCount u)}"
    then have "k \<le> nat (statesCount u)" by simp
    then have "int k \<le> statesCount u" using assms(1) by linarith
    then have "int k * i \<le> statesCount u * i" using assms(4) by (intro mult_right_mono) simp_all
    with assms(5) have "int k * i < 2 ^ 53" by linarith
    moreover have "0 \<le> int k * i" using assms(4) by simp
    ultimately have "\<bar>int k * i\<bar> < 2 ^ 53" by linarith
    then have "is_float64 (of_int (int k * i))" by (rule is_float64_of_int)
    then show "is_float64 (real k * of_int i)" by simp
  qed
qed

text \<open>
  Claim C9, as amended. For a utility matrix with at least one state, the Laplace score
  of an alternative whose utility is the same constant \<open>c\<close> in every state is
  exactly \<open>c\<close> provided that the number of states \<open>n\<close> and the partial sums
  \<open>c, 2c, \<dots>, nc\<close> are \<^verbatim>\<open>float64\<close> values, so that no addition rounds; this
  is so whenever \<open>c\<close> is a positive integer with \<open>n \<sqdot> c < 2\<^sup>5\<^sup>3\<close>.
\<close>

theorem CalculateLaplace_constant:
  assumes "0 < statesCount u" and "a \<in> set (alternatives u)"
    and "outcomes_of u a = replicate (nat (statesCount u)) c"
  shows "(is_float64 (of_int (statesCount u)) \<and>
          (\<forall>k\<in>{1..nat (statesCount u)}. is_float64 (real k * c)) \<longrightarrow>
            (\<exists>laplace. CalculateLaplace u = Inr laplace \<and> laplace a = Some c)) \<and>
         ((\<exists>i. c = of_int i \<and> 0 < i \<and> statesCount u * i < 2 ^ 53) \<longrightarrow>
            (\<exists>laplace. CalculateLaplace u = Inr laplace \<and> laplace a = Some c))"
proof (intro conjI impI)
  assume "is_float64 (of_int (statesCount u)) \<and>
          (\<forall>k\<in>{1..nat (statesCount u)}. is_float64 (real k * c))"
  with assms show "\<exists>laplace. CalculateLaplace u = Inr laplace \<and> laplace a = Some c"
    by (intro CalculateLaplace_exact_sums) simp_all
next
  assume "\<exists>i. c = of_int i \<and> 0 < i \<and> statesCount u * i < 2 ^ 53"
  then obtain i where i: "c = of_int i" "0 < i" "statesCount u * i < 2 ^ 53" by blast
  from CalculateLaplace_integer[OF assms(1,2) assms(3)[unfolded i(1)] i(2,3)]
  show "\<exists>laplace. CalculateLaplace u = Inr laplace \<and> laplace a = Some c"
    by (simp only: i(1))
qed

lemma is_float64_12: "is_float64 12"
  by (simp add: is_float64_def fl_def ilog2_def round_even_def pow2_def bitlen_def compute_floorlog)

theorem CalculateLaplace_constant_witness:
  "0 < statesCount scenario_utilities \<and> ''B'' \<in> set (alternatives scenario_utilities) \<and>
   outcomes_of scenario_utilities ''B'' = replicate (nat (statesCount scenario_utilities)) 6 \<and>
   is_float64 (of_int (statesCount scenario_utilities)) \<and>
   is_float64 6 \<and> is_float64 12 \<and>
   (\<exists>i. (6::real) = of_int i \<and> 0 < i \<and> statesCount scenario_utilities * i < 2 ^ 53) \<and>
   (\<exists>laplace. CalculateLaplace scenario_utilities = Inr laplace \<and> laplace ''B'' = Some 6)"
proof -
  have 1: "0 < statesCount scenario_utilities" by (simp add: scenario_utilities_simps)
  have 2: "''B'' \<in> set (alternatives scenario_utilities)" by (simp add: scenario_utilities_simps)
  have 3: "outcomes_of scenario_utilities ''B'' = replicate (nat (statesCount scenario_utilities)) 6"
    by (simp add: scenario_utilities_simps numeral_2_eq_2)
  have 4: "is_float64 (of_int (statesCount scenario_utilities))"
    by (simp add: scenario_utilities_simps is_float64_small)
  have "{1..nat (statesCount scenario_utilities)} = {1, 2}"
    by (auto simp: scenario_utilities_simps)
  then have 5: "\<forall>k\<in>{1..nat (statesCount scenario_utilities)}. is_float64 (real k * 6)"
    by (simp add: is_float64_small is_float64_12)
  have "(6::real) = of_int 6 \<and> (0::int) < 6 \<and> statesCount scenario_utilities * 6 < 2 ^ 53"
    by (simp add: scenario_utilities_simps)
  then have 6: "\<exists>i. (6::real) = of_int i \<and> 0 < i \<and> statesCount scenario_utilities * i < 2 ^ 53"
    by (rule exI)
  from CalculateLaplace_constant[OF 1 2 3] 4 5
  have 7: "\<exists>laplace. CalculateLaplace scenario_utilities = Inr laplace \<and> laplace ''B'' = Some 6"
    by blast
  show ?thesis by (intro conjI 1 2 3 4 6 7 is_float64_small is_float64_12)
qed

text \<open>
  Claim C9 as stated fails: the Laplace score of a constant row is not always the
  constant. With the utility
  \<open>1.4\<close> in each of three states the \<^verbatim>\<open>float64\<close> sum is rounded and the score
  is \<open>1.3999999999999997\<close>.
\<close>

theorem CalculateLaplace_constant_counterexample:
  "score_of (CalculateLaplace rounding_example) ''A'' = Some (6305039478318693 / 4503599627370496) \<and>
   fl (14 / 10) = 3152519739159347 / 2251799813685248 \<and>
   score_of (CalculateLaplace rounding_example) ''A'' \<noteq> Some (fl (14 / 10))"
  by code_simp

subsection \<open>Rankings\<close>

lemma mset_sift: "mset (sift lessf x ys) = add_mset x (mset ys)"
  by (induction ys) simp_all

lemma mset_insertion_loop: "mset (insertion_loop lessf xs prefix) = mset xs + mset prefix"
  by (induction xs arbitrary: prefix) (simp_all add: mset_sift)

lemma set_sift: "set (sift lessf x ys) = insert x (set ys)"
  by (induction ys) auto

lemma sorted_sift:
  fixes f :: "'a \<Rightarrow> 'k::linorder"
  shows "sorted_wrt (\<lambda>a b. f b \<le> f a) ys \<Longrightarrow>
         sorted_wrt (\<lambda>a b. f b \<le> f a) (sift (\<lambda>a b. f a < f b) x ys)"
proof (induction ys)
  case Nil
  then show ?case by simp
next
  case (Cons y ys)
  show ?case
  proof (cases "f x < f y")
    case True
    with Cons show ?thesis by (auto simp: set_sift)
  next
    case False
    with Cons.prems show ?thesis by auto
  qed
qed

lemma sorted_insertion_loop:
  fixes f :: "'a \<Rightarrow> 'k::linorder"
  shows "sorted_wrt (\<lambda>a b. f b \<le> f a) prefix \<Longrightarrow>
         sorted_wrt (\<lambda>a b. f a \<le> f b) (insertion_loop (\<lambda>a b. f a < f b) xs prefix)"
proof (induction xs arbitrary: prefix)
  case Nil
  then show ?case by (simp add: sorted_wrt_rev)
next
  case (Cons x xs)
  then show ?case by (simp add: sorted_sift)
qed

lemma insertionSort_sorts_by:
  fixes f :: "'a \<Rightarrow> 'k::linorder"
  shows "sorts_by insertionSort (\<lambda>a b. f a < f b)"
proof -
  have "sorted_wrt (\<lambda>a b. \<not> f b < f a) (insertionSort (\<lambda>a b. f a < f b) xs)" for xs
    using sorted_insertion_loop[of f "[]" xs] by (simp add: insertionSort_def not_less)
  then show ?thesis
    by (simp add: sorts_by_def insertionSort_def mset_insertion_loop)
qed

lemma filter_sift:
  fixes f :: "'a \<Rightarrow> 'k::linorder"
  shows "filter (\<lambda>y. f y = k) (sift (\<lambda>a b. f a < f b) x ys) =
         (if f x = k then x # filter (\<lambda>y. f y = k) ys else filter (\<lambda>y. f y = k) ys)"
  by (induction ys) auto

lemma filter_insertion_loop:
  fixes f :: "'a \<Rightarrow> 'k::linorder"
  shows "filter (\<lambda>y. f y = k) (insertion_loop (\<lambda>a b. f a < f b) xs prefix) =
         filter (\<lambda>y. f y = k) (rev prefix) @ filter (\<lambda>y. f y = k) xs"
  by (induction xs arbitrary: prefix) (simp_all add: filter_sift rev_filter[symmetric])

lemma insertionSort_stable:
  fixes f :: "'a \<Rightarrow> 'k::linorder"
  shows "filter (\<lambda>y. f y = k) (insertionSort (\<lambda>a b. f a < f b) xs) = filter (\<lambda>y. f y = k) xs"
  by (simp add: insertionSort_def filter_insertion_loop)

lemma append_loop_entries: "append_loop data ks arr = arr @ entries data ks"
  by (induction ks arbitrary: arr) (simp_all add: entries_def split: option.splits)

lemma entries_alt: "map alt (entries data ks) = filter (\<lambda>k. data k \<noteq> None) ks"
  by (induction ks) (auto simp: entries_def split: option.splits)

lemma entries_value: "x \<in> set (entries data ks) \<Longrightarrow> data (alt x) = Some (value' x)"
  by (induction ks) (auto simp: entries_def split: option.splits)

lemma ranking_rows_fst: "map fst (ranking_rows i xs) = map (\<lambda>k. int k + 1) [i ..< i + length xs]"
proof (induction xs arbitrary: i)
  case Nil
  then show ?case by simp
next
  case (Cons x xs)
  have "[i ..< i + length (x # xs)] = i # [Suc i ..< Suc i + length xs]"
    by (subst upt_rec) simp
  with Cons.IH[of "Suc i"] show ?case by simp
qed

lemma ranking_rows_snd: "map snd (ranking_rows i xs) = map (\<lambda>x. (alt x, value' x)) xs"
  by (induction xs arbitrary: i) simp_all

lemma criterion_rows_fst:
  "map fst (criterion_rows f i xs) = map (\<lambda>k. int k + 1) [i ..< i + length xs]"
proof (induction xs arbitrary: i)
  case Nil
  then show ?case by simp
next
  case (Cons x xs)
  have "[i ..< i + length (x # xs)] = i # [Suc i ..< Suc i + length xs]"
    by (subst upt_rec) simp
  with Cons.IH[of "Suc i"] show ?case by simp
qed

lemma criterion_rows_snd: "map snd (criterion_rows f i xs) = map (\<lambda>x. (name x, f x)) xs"
  by (induction xs arbitrary: i) simp_all

lemma positions_from_1: "map (\<lambda>k. int k + 1) [0 ..< n] = map int [1 ..< Suc n]"
proof -
  have "map int [1 ..< Suc n] = map int (map Suc [0 ..< n])"
    by (simp only: map_Suc_upt One_nat_def)
  then show ?thesis by (simp add: comp_def add.commute)
qed

lemma sortAltValues_char:
  assumes it: "iteration_of iter data"
    and srt: "sorts_by srt (\<lambda>a b. value' a < value' b)" "sorts_by srt (\<lambda>a b. value' a > value' b)"
  shows "mset (map alt (sortAltValues srt iter data ascending)) = mset iter"
    and "length (sortAltValues srt iter data ascending) = card (dom data)"
    and "\<forall>x\<in>set (sortAltValues srt iter data ascending). data (alt x) = Some (value' x)"
    and "sorted_wrt (\<lambda>a b. if ascending then value' a \<le> value' b else value' b \<le> value' a)
           (sortAltValues srt iter data ascending)"
proof -
  let ?arr = "entries data iter"
  let ?S = "sortAltValues srt iter data ascending"
  from it have d: "distinct iter" and s: "set iter = dom data" by (simp_all add: iteration_of_def)
  from s have "filter (\<lambda>k. data k \<noteq> None) iter = iter" by (intro filter_True) auto
  then have alts_arr: "map alt ?arr = iter" by (simp add: entries_alt)
  have m: "mset ?S = mset ?arr"
    using srt by (simp add: sortAltValues_def append_loop_entries sorts_by_def Let_def)
  have "mset (map alt ?S) = image_mset alt (mset ?S)" by simp
  also have "\<dots> = mset (map alt ?arr)" by (simp add: m)
  finally show 1: "mset (map alt ?S) = mset iter" by (simp only: alts_arr)
  have "length ?S = length ?arr" using m by (rule mset_eq_length)
  also have "\<dots> = length (map alt ?arr)" by simp
  also have "\<dots> = card (dom data)" unfolding alts_arr using distinct_card[OF d] s by simp
  finally show "length ?S = card (dom data)" .
  from m have "set ?S = set ?arr" by (rule mset_eq_setD)
  then show "\<forall>x\<in>set ?S. data (alt x) = Some (value' x)" using entries_value by blast
  show "sorted_wrt (\<lambda>a b. if ascending then value' a \<le> value' b else value' b \<le> value' a) ?S"
  proof (cases ascending)
    case True
    have "sorted_wrt (\<lambda>a b. \<not> value' b < value' a) (srt (\<lambda>a b. value' a < value' b) ?arr)"
      using srt(1) by (simp add: sorts_by_def)
    then show ?thesis using True by (simp add: sortAltValues_def append_loop_entries not_less Let_def)
  next
    case False
    have "sorted_wrt (\<lambda>a b. \<not> value' b > value' a) (srt (\<lambda>a b. value' a > value' b) ?arr)"
      using srt(2) by (simp add: sorts_by_def)
    then show ?thesis using False by (simp add: sortAltValues_def append_loop_entries not_less Let_def)
  qed
qed

text \<open>
  Claim C7. For every scores map, every order in which Go may visit its keys and either
  sort direction, whatever algorithm the library sort uses within its contract: the
  rows of \<^verbatim>\<open>PrintRanking\<close> after \<^verbatim>\<open>sortAltValues\<close> carry the positions
  \<open>1, \<dots>, N\<close> in this order, \<open>N\<close> the number of entries of the map; they list
  every entry of the map once; and their scores are non-decreasing when ascending and
  non-increasing when descending. The rows of \<^verbatim>\<open>PrintRankings\<close>, sorted with
  \<^verbatim>\<open>ByCriterion.Less\<close>, carry the positions \<open>1, \<dots>, N\<close>, are a rearrangement of
  the slice and have non-increasing scores.
\<close>
theorem ranking_positions_and_order:
  assumes "iteration_of iter data"
    and "sorts_by srt (\<lambda>a b. value' a < value' b)"
    and "sorts_by srt (\<lambda>a b. value' a > value' b)"
    and "sorts_by srt' (Less valueFunc)"
  shows "map fst (PrintRanking (sortAltValues srt iter data ascending)) =
           map int [1 ..< Suc (card (dom data))] \<and>
         distinct (map (fst \<circ> snd) (PrintRanking (sortAltValues srt iter data ascending))) \<and>
         snd ` set (PrintRanking (sortAltValues srt iter data ascending)) =
           {(a, v). data a = Some v} \<and>
         sorted_wrt (\<lambda>v w. if ascending then v \<le> w else w \<le> v)
           (map (snd \<circ> snd) (PrintRanking (sortAltValues srt iter data ascending))) \<and>
         mset (fst (PrintRankings srt' slice valueFunc)) = mset slice \<and>
         map fst (snd (PrintRankings srt' slice valueFunc)) = map int [1 ..< Suc (length slice)] \<and>
         map snd (snd (PrintRankings srt' slice valueFunc)) =
           map (\<lambda>x. (name x, valueFunc x)) (fst (PrintRankings srt' slice valueFunc)) \<and>
         sorted_wrt (\<lambda>v w. w \<le> v) (map (snd \<circ> snd) (snd (PrintRankings srt' slice valueFunc)))"
proof -
  let ?S = "sortAltValues srt iter data ascending"
  let ?rows = "PrintRanking ?S"
  note c = sortAltValues_char[OF assms(1,2,3), of ascending]
  from assms(1) have d: "distinct iter" and s: "set iter = dom data"
    by (simp_all add: iteration_of_def)
  have 1: "map fst ?rows = map int [1 ..< Suc (card (dom data))]"
    using c(2) by (simp add: PrintRanking_def ranking_rows_fst positions_from_1)
  have sn: "map snd ?rows = map (\<lambda>x. (alt x, value' x)) ?S"
    by (simp add: PrintRanking_def ranking_rows_snd)
  have "map (fst \<circ> snd) ?rows = map fst (map snd ?rows)" by simp
  also have "\<dots> = map alt ?S" unfolding sn by (simp add: comp_def)
  finally have names: "map (fst \<circ> snd) ?rows = map alt ?S" .
  have 2: "distinct (map (fst \<circ> snd) ?rows)"
    unfolding names using mset_eq_imp_distinct_iff[OF c(1)] d by simp
  have "snd ` set ?rows = set (map snd ?rows)" by simp
  also have "\<dots> = (\<lambda>x. (alt x, value' x)) ` set ?S" unfolding sn by simp
  also have "\<dots> = {(a, v). data a = Some v}"
  proof (intro set_eqI iffI)
    fix p assume "p \<in> (\<lambda>x. (alt x, value' x)) ` set ?S"
    with c(3) show "p \<in> {(a, v). data a = Some v}" by auto
  next
    fix p assume p: "p \<in> {(a, v). data a = Some v}"
    then obtain a v where av: "p = (a, v)" "data a = Some v" by auto
    then have "a \<in> set iter" using s by auto
    moreover from c(1) have "set (map alt ?S) = set iter" by (rule mset_eq_setD)
    ultimately have "a \<in> alt ` set ?S" by simp
    then obtain x where x: "x \<in> set ?S" "alt x = a" by auto
    with c(3) av have "value' x = v" by auto
    with x av show "p \<in> (\<lambda>x. (alt x, value' x)) ` set ?S" by auto
  qed
  finally have 3: "snd ` set ?rows = {(a, v). data a = Some v}" .
  have "map (snd \<circ> snd) ?rows = map snd (map snd ?rows)" by simp
  also have "\<dots> = map value' ?S" unfolding sn by (simp add: comp_def)
  finally have scores: "map (snd \<circ> snd) ?rows = map value' ?S" .
  have 4: "sorted_wrt (\<lambda>v w. if ascending then v \<le> w else w \<le> v) (map (snd \<circ> snd) ?rows)"
    unfolding scores using c(4) by (simp add: sorted_wrt_map)
  let ?T = "srt' (Less valueFunc) slice"
  have pr: "PrintRankings srt' slice valueFunc = (?T, criterion_rows valueFunc 0 ?T)"
    by (simp add: PrintRankings_def Let_def)
  have 5: "mset (fst (PrintRankings srt' slice valueFunc)) = mset slice"
    using assms(4) by (simp add: pr sorts_by_def)
  then have "length ?T = length slice" unfolding pr fst_conv by (rule mset_eq_length)
  then have 6: "map fst (snd (PrintRankings srt' slice valueFunc)) = map int [1 ..< Suc (length slice)]"
    by (simp add: pr criterion_rows_fst positions_from_1)
  have 7: "map snd (snd (PrintRankings srt' slice valueFunc)) =
           map (\<lambda>x. (name x, valueFunc x)) (fst (PrintRankings srt' slice valueFunc))"
    by (simp add: pr criterion_rows_snd)
  have "sorted_wrt (\<lambda>a b. \<not> Less valueFunc b a) ?T" using assms(4) by (simp add: sorts_by_def)
  then have "sorted_wrt (\<lambda>a b. valueFunc b \<le> valueFunc a) ?T" by (simp add: Less_def not_less)
  moreover have "map (snd \<circ> snd) (snd (PrintRankings srt' slice valueFunc)) =
      map snd (map snd (snd (PrintRankings srt' slice valueFunc)))" by simp
  then have "map (snd \<circ> snd) (snd (PrintRankings srt' slice valueFunc)) = map valueFunc ?T"
    unfolding 7 by (simp add: pr comp_def)
  ultimately have 8:
    "sorted_wrt (\<lambda>v w. w \<le> v) (map (snd \<circ> snd) (snd (PrintRankings srt' slice valueFunc)))"
    by (simp add: sorted_wrt_map)
  show ?thesis by (intro conjI 1 2 3 4 5 6 7 8)
qed

lemma insertionSort_sorts_by_gt:
  fixes f :: "'a \<Rightarrow> real"
  shows "sorts_by insertionSort (\<lambda>a b. f a > f b)"
  using insertionSort_sorts_by[of "\<lambda>a. - f a"] by simp

lemma insertionSort_stable_gt:
  fixes f :: "'a \<Rightarrow> real"
  shows "filter (\<lambda>y. f y = k) (insertionSort (\<lambda>a b. f a > f b) xs) = filter (\<lambda>y. f y = k) xs"
  using insertionSort_stable[of "\<lambda>a. - f a" "- k" xs] by simp

lemma entries_filter:
  "map alt (filter (\<lambda>x. value' x = k) (entries data ks)) = filter (\<lambda>a. data a = Some k) ks"
  by (induction ks) (auto simp: entries_def split: option.splits)

theorem ranking_positions_and_order_witness:
  "iteration_of [''A'', ''B''] wald_scores \<and>
   sorts_by insertionSort (\<lambda>a b. value' a < value' b) \<and>
   sorts_by insertionSort (\<lambda>a b. value' a > value' b) \<and>
   sorts_by insertionSort (Less wald) \<and>
   map fst (PrintRanking (sortAltValues insertionSort [''A'', ''B''] wald_scores False)) = [1, 2] \<and>
   sorted_wrt (\<lambda>v w. w \<le> v)
     (map (snd \<circ> snd) (PrintRanking (sortAltValues insertionSort [''A'', ''B''] wald_scores False))) \<and>
   map fst (snd (PrintRankings insertionSort (CalculateCriteria scenario_utilities (1 / 2)) wald)) = [1, 2]"
proof -
  have d: "dom wald_scores = {''A'', ''B''}" by (auto simp: wald_scores_def)
  have 1: "iteration_of [''A'', ''B''] wald_scores" by (simp add: iteration_of_def d)
  have 2: "sorts_by insertionSort (\<lambda>a b. value' a < value' b)" by (rule insertionSort_sorts_by)
  have 3: "sorts_by insertionSort (\<lambda>a b. value' a > value' b)" by (rule insertionSort_sorts_by_gt)
  have 4: "sorts_by insertionSort (Less wald)"
    using insertionSort_sorts_by_gt[of wald] by (simp add: Less_def[abs_def])
  have c: "card (dom wald_scores) = 2" by (simp add: d)
  have l: "length (CalculateCriteria scenario_utilities (1 / 2)) = 2"
    by (simp add: CalculateCriteria_map scenario_utilities_simps)
  have u: "map int [1 ..< Suc 2] = [1, 2]" by (simp add: upt_conv_Cons)
  note t = ranking_positions_and_order[OF 1 2 3 4, of False "CalculateCriteria scenario_utilities (1 / 2)"]
  have 5: "map fst (PrintRanking (sortAltValues insertionSort [''A'', ''B''] wald_scores False)) = [1, 2]"
    using t unfolding c l u by (rule conjunct1)
  have 6: "sorted_wrt (\<lambda>v w. w \<le> v)
     (map (snd \<circ> snd) (PrintRanking (sortAltValues insertionSort [''A'', ''B''] wald_scores False)))"
    using t by simp
  have 7: "map fst (snd (PrintRankings insertionSort (CalculateCriteria scenario_utilities (1 / 2)) wald)) = [1, 2]"
    using t unfolding c l u by blast
  show ?thesis by (intro conjI 1 2 3 4 5 6 7)
qed

text \<open>
  Claim C8 as stated fails: equal scores are not ordered by declaration. In the
  utility scenario of the specification both Savage scores are \<open>4\<close>: when the map is visited as \<open>A, B\<close>
  the ranking is \<open>A, B\<close>, when it is visited as \<open>B, A\<close> the ranking is
  \<open>B, A\<close>. In \<open>ties_example\<close> the MaxiMax scores are equal and the MaxiMax
  ranking puts \<open>B\<close> before \<open>A\<close>, the order that the Wald ranking left in the
  slice, although \<open>A\<close> is declared first.
\<close>
theorem ranking_ties_counterexample:
  "score_of (CalculateSavage scenario_utilities) ''A'' = Some 4 \<and>
   score_of (CalculateSavage scenario_utilities) ''B'' = Some 4 \<and>
   PrintRanking (sortAltValues insertionSort [''A'', ''B''] savage_scores True) =
     [(1, ''A'', 4), (2, ''B'', 4)] \<and>
   PrintRanking (sortAltValues insertionSort [''B'', ''A''] savage_scores True) =
     [(1, ''B'', 4), (2, ''A'', 4)] \<and>
   alternatives ties_example = [''A'', ''B''] \<and>
   fst (snd (main_rankings insertionSort ties_example (1 / 2))) = [(1, ''B'', 5), (2, ''A'', 5)]"
  by code_simp

lemma AltValue_inj:
  assumes "inj_on data (dom data)"
    and "\<forall>x\<in>A. data (alt x) = Some (value' x)"
  shows "inj_on value' (A :: AltValue set)"
proof (rule inj_onI)
  fix x y assume "x \<in> A" "y \<in> A" "value' x = value' y"
  with assms(2) have "data (alt x) = data (alt y)" "alt x \<in> dom data" "alt y \<in> dom data"
    by auto
  with assms(1) have "alt x = alt y" by (auto dest: inj_onD)
  with \<open>value' x = value' y\<close> show "x = y" by simp
qed

lemma sortAltValues_set:
  assumes it: "iteration_of iter data"
    and srt: "sorts_by srt (\<lambda>a b. value' a < value' b)" "sorts_by srt (\<lambda>a b. value' a > value' b)"
  shows "set (sortAltValues srt iter data ascending) = {x. data (alt x) = Some (value' x)}"
proof (intro set_eqI iffI)
  note c = sortAltValues_char[OF it srt, of ascending]
  fix x :: AltValue
  {
    assume "x \<in> set (sortAltValues srt iter data ascending)"
    with c(3) show "x \<in> {x. data (alt x) = Some (value' x)}" by simp
  }
  {
    assume "x \<in> {x. data (alt x) = Some (value' x)}"
    then have x: "data (alt x) = Some (value' x)" by simp
    then have "alt x \<in> set iter" using it by (auto simp: iteration_of_def)
    moreover from c(1) have "set (map alt (sortAltValues srt iter data ascending)) = set iter"
      by (rule mset_eq_setD)
    ultimately have "alt x \<in> alt ` set (sortAltValues srt iter data ascending)" by simp
    then obtain y where y: "y \<in> set (sortAltValues srt iter data ascending)" "alt y = alt x"
      by auto
    with c(3) x have "value' y = value' x" by auto
    with y(2) have "y = x" by simp
    with y(1) show "x \<in> set (sortAltValues srt iter data ascending)" by simp
  }
qed

lemma sortAltValues_unique:
  assumes i1: "iteration_of iter1 data" and i2: "iteration_of iter2 data"
    and srt: "sorts_by srt (\<lambda>a b. value' a < value' b)" "sorts_by srt (\<lambda>a b. value' a > value' b)"
    and inj: "inj_on data (dom data)"
  shows "sortAltValues srt iter1 data ascending = sortAltValues srt iter2 data ascending"
proof -
  let ?S1 = "sortAltValues srt iter1 data ascending"
  let ?S2 = "sortAltValues srt iter2 data ascending"
  note c1 = sortAltValues_char[OF i1 srt, of ascending]
  note c2 = sortAltValues_char[OF i2 srt, of ascending]
  have s: "set ?S1 = set ?S2"
    by (simp only: sortAltValues_set[OF i1 srt] sortAltValues_set[OF i2 srt])
  have v1: "inj_on value' (set ?S1)" using inj c1(3) by (rule AltValue_inj)
  have v2: "inj_on value' (set ?S2)" using inj c2(3) by (rule AltValue_inj)
  from i1 c1(1) have "distinct (map alt ?S1)"
    using mset_eq_imp_distinct_iff[OF c1(1)] by (simp add: iteration_of_def)
  then have d1: "distinct ?S1" by (simp add: distinct_map)
  from i2 c2(1) have "distinct (map alt ?S2)"
    using mset_eq_imp_distinct_iff[OF c2(1)] by (simp add: iteration_of_def)
  then have d2: "distinct ?S2" by (simp add: distinct_map)
  show ?thesis
  proof (cases ascending)
    case True
    have "sorted (map value' ?S1)" "sorted (map value' ?S2)"
      using c1(4) c2(4) True by (simp_all add: sorted_wrt_map)
    moreover have "distinct (map value' ?S1)" "distinct (map value' ?S2)"
      using d1 d2 v1 v2 by (simp_all add: distinct_map)
    moreover have "inj_on value' (set ?S1 \<union> set ?S2)" using v1 s by simp
    ultimately show ?thesis using s by (intro map_sorted_distinct_set_unique)
  next
    case False
    have "sorted (map (\<lambda>x. - value' x) ?S1)" "sorted (map (\<lambda>x. - value' x) ?S2)"
      using c1(4) c2(4) False by (simp_all add: sorted_wrt_map)
    moreover have n1: "inj_on (\<lambda>x. - value' x) (set ?S1)" and n2: "inj_on (\<lambda>x. - value' x) (set ?S2)"
      using v1 v2 by (auto simp: inj_on_def)
    moreover have "distinct (map (\<lambda>x. - value' x) ?S1)" "distinct (map (\<lambda>x. - value' x) ?S2)"
      using d1 d2 n1 n2 by (simp_all add: distinct_map)
    moreover have "inj_on (\<lambda>x. - value' x) (set ?S1 \<union> set ?S2)" using n1 s by simp
    ultimately show ?thesis using s by (intro map_sorted_distinct_set_unique)
  qed
qed

text \<open>
  Claim C8, as amended. For slices of at most 12 elements, which the library sorts by
  insertion, alternatives with equal scores keep the order in which the sort received
  them: the order in which the scores map was iterated in \<^verbatim>\<open>sortAltValues\<close>, the
  order in which the slice was left by the ranking before in \<^verbatim>\<open>PrintRankings\<close>.
  The ranking is the same for every iteration order when the scores are pairwise
  distinct.
\<close>
theorem ranking_ties_keep_input_order:
  assumes "length iter \<le> 12" and "length slice \<le> 12"
    and "iteration_of iter data" and "iteration_of iter' data"
  shows "map alt (filter (\<lambda>x. value' x = k) (sortAltValues insertionSort iter data ascending)) =
           filter (\<lambda>a. data a = Some k) iter \<and>
         filter (\<lambda>x. valueFunc x = k) (fst (PrintRankings insertionSort slice valueFunc)) =
           filter (\<lambda>x. valueFunc x = k) slice \<and>
         (inj_on data (dom data) \<longrightarrow>
            sortAltValues insertionSort iter data ascending =
            sortAltValues insertionSort iter' data ascending)"
proof (intro conjI impI)
  have "filter (\<lambda>x. value' x = k) (sortAltValues insertionSort iter data ascending) =
        filter (\<lambda>x. value' x = k) (entries data iter)"
    by (simp add: sortAltValues_def append_loop_entries Let_def
        insertionSort_stable insertionSort_stable_gt)
  then show "map alt (filter (\<lambda>x. value' x = k) (sortAltValues insertionSort iter data ascending)) =
           filter (\<lambda>a. data a = Some k) iter"
    by (simp only: entries_filter)
  show "filter (\<lambda>x. valueFunc x = k) (fst (PrintRankings insertionSort slice valueFunc)) =
           filter (\<lambda>x. valueFunc x = k) slice"
    by (simp add: PrintRankings_def Let_def Less_def[abs_def] insertionSort_stable_gt)
  assume "inj_on data (dom data)"
  with assms(3,4) show "sortAltValues insertionSort iter data ascending =
            sortAltValues insertionSort iter' data ascending"
    by (intro sortAltValues_unique insertionSort_sorts_by insertionSort_sorts_by_gt)
qed

theorem ranking_ties_keep_input_order_witness:
  "length [''B'', ''A''] \<le> 12 \<and> length (CalculateCriteria ties_example (1 / 2)) \<le> 12 \<and>
   iteration_of [''B'', ''A''] savage_scores \<and> iteration_of [''A'', ''B''] savage_scores \<and>
   map alt (filter (\<lambda>x. value' x = 4) (sortAltValues insertionSort [''B'', ''A''] savage_scores True)) =
     [''B'', ''A''] \<and>
   iteration_of [''B'', ''A''] wald_scores \<and> iteration_of [''A'', ''B''] wald_scores \<and>
   inj_on wald_scores (dom wald_scores) \<and>
   sortAltValues insertionSort [''B'', ''A''] wald_scores False =
   sortAltValues insertionSort [''A'', ''B''] wald_scores False"
proof -
  have ds: "dom savage_scores = {''A'', ''B''}" by (auto simp: savage_scores_def)
  have dw: "dom wald_scores = {''A'', ''B''}" by (auto simp: wald_scores_def)
  have 1: "length [''B'', ''A''] \<le> 12" by simp
  have 2: "length (CalculateCriteria ties_example (1 / 2)) \<le> 12"
    by (simp add: CalculateCriteria_map ties_example_def)
  have 3: "iteration_of [''B'', ''A''] savage_scores" by (auto simp: iteration_of_def ds)
  have 4: "iteration_of [''A'', ''B''] savage_scores" by (auto simp: iteration_of_def ds)
  have 5: "iteration_of [''B'', ''A''] wald_scores" by (auto simp: iteration_of_def dw)
  have 6: "iteration_of [''A'', ''B''] wald_scores" by (auto simp: iteration_of_def dw)
  have 7: "inj_on wald_scores (dom wald_scores)"
    unfolding dw by (simp add: wald_scores_def)
  have f: "filter (\<lambda>a. savage_scores a = Some 4) [''B'', ''A''] = [''B'', ''A'']"
    by (simp add: savage_scores_def)
  from ranking_ties_keep_input_order[OF 1 2 3 4, of 4 True]
  have 8: "map alt (filter (\<lambda>x. value' x = 4)
      (sortAltValues insertionSort [''B'', ''A''] savage_scores True)) = [''B'', ''A'']"
    unfolding f by (rule conjunct1)
  from ranking_ties_keep_input_order[OF 1 2 5 6, of 0 False] 7
  have 9: "sortAltValues insertionSort [''B'', ''A''] wald_scores False =
   sortAltValues insertionSort [''A'', ''B''] wald_scores False"
    by blast
  show ?thesis by (intro conjI 1 2 3 4 5 6 7 8 9)
qed

end
